theory Spec2Isabelle
  imports Complex_Main "HOL-Library.Log_Nat"
begin

section \<open>Python values, exceptions and strings\<close>

text \<open>
  The backend (\<^verbatim>\<open>backend.py\<close>) and the standalone detector (\<^verbatim>\<open>detector.py\<close>) are
  embedded function by function. A Python call either returns a value or raises; the
  model returns \<open>exn + 'a\<close>, with \<open>Inl\<close> for the exception. Only classes derived from
  \<^verbatim>\<open>Exception\<close> are modelled (the handlers in the source are \<^verbatim>\<open>except TypeError\<close> and
  \<^verbatim>\<open>except Exception\<close>). Each constructor carries the message that \<^verbatim>\<open>str(e)\<close> gives.
  \<open>ServiceError\<close> stands for any other exception class raised by an external service
  (network failure, rate limit, a 5xx answer).
\<close>

datatype exn =
    TypeError string
  | ValueError string
  | AttributeError string
  | NameError string
  | OverflowError string
  | RuntimeError string
  | JSONDecodeError string
  | ServiceError string

fun str_exn :: "exn \<Rightarrow> string" where
  "str_exn (TypeError m) = m"
| "str_exn (ValueError m) = m"
| "str_exn (AttributeError m) = m"
| "str_exn (NameError m) = m"
| "str_exn (OverflowError m) = m"
| "str_exn (RuntimeError m) = m"
| "str_exn (JSONDecodeError m) = m"
| "str_exn (ServiceError m) = m"

fun is_TypeError :: "exn \<Rightarrow> bool" where
  "is_TypeError (TypeError m) = True"
| "is_TypeError e = False"

definition ebind :: "exn + 'a \<Rightarrow> ('a \<Rightarrow> exn + 'b) \<Rightarrow> exn + 'b" where
  "ebind m f = (case m of Inl e \<Rightarrow> Inl e | Inr x \<Rightarrow> f x)"

text \<open>
  The values that \<^verbatim>\<open>json.loads\<close> produces and the services return: \<^verbatim>\<open>None\<close>, booleans,
  integers (unbounded), strings, lists and dictionaries. A dictionary is an association
  list; \<^verbatim>\<open>d.get(k)\<close> is the first binding of \<open>k\<close>. JSON numbers with a fraction part
  (Python floats) are not part of this type: the fields read by the code below are
  documented as integers.
\<close>

datatype pyval =
    PNone
  | PBool bool
  | PInt int
  | PStr string
  | PList "pyval list"
  | PDict "(string \<times> pyval) list"

type_synonym dict = "(string \<times> pyval) list"

definition get :: "dict \<Rightarrow> string \<Rightarrow> pyval option" where
  "get d k = map_of d k"

text \<open>\<^verbatim>\<open>d.get(k, default)\<close>.\<close>

definition get_default :: "dict \<Rightarrow> string \<Rightarrow> pyval \<Rightarrow> pyval" where
  "get_default d k dflt = (case map_of d k of None \<Rightarrow> dflt | Some v \<Rightarrow> v)"

text \<open>\<^verbatim>\<open>d.setdefault(k, v)\<close>: binds \<open>k\<close> only when it has no binding (a present null stays).\<close>

definition setdefault :: "string \<Rightarrow> pyval \<Rightarrow> dict \<Rightarrow> dict" where
  "setdefault k v d = (case map_of d k of None \<Rightarrow> d @ [(k, v)] | Some _ \<Rightarrow> d)"

text \<open>\<^verbatim>\<open>d[k] = v\<close> on a copy of the dictionary.\<close>

fun setitem :: "string \<Rightarrow> pyval \<Rightarrow> dict \<Rightarrow> dict" where
  "setitem k v [] = [(k, v)]"
| "setitem k v ((k', v') # d) = (if k' = k then (k, v) # d else (k', v') # setitem k v d)"

text \<open>Truth value testing, as used by \<^verbatim>\<open>x or y\<close> and \<^verbatim>\<open>if not x\<close>.\<close>

fun truthy :: "pyval \<Rightarrow> bool" where
  "truthy PNone = False"
| "truthy (PBool b) = b"
| "truthy (PInt i) = (i \<noteq> 0)"
| "truthy (PStr s) = (s \<noteq> [])"
| "truthy (PList xs) = (xs \<noteq> [])"
| "truthy (PDict d) = (d \<noteq> [])"

text \<open>Iteration (\<^verbatim>\<open>for r in v\<close>): a string yields its characters, a dictionary its keys.\<close>

fun py_iter :: "pyval \<Rightarrow> exn + pyval list" where
  "py_iter (PList xs) = Inr xs"
| "py_iter (PStr s) = Inr (map (\<lambda>c. PStr [c]) s)"
| "py_iter (PDict d) = Inr (map (\<lambda>kv. PStr (fst kv)) d)"
| "py_iter PNone = Inl (TypeError ''NoneType object is not iterable'')"
| "py_iter (PBool b) = Inl (TypeError ''bool object is not iterable'')"
| "py_iter (PInt i) = Inl (TypeError ''int object is not iterable'')"

text \<open>
  A string is a list of characters, one \<open>char\<close> per Python character (code points below
  256). \<^verbatim>\<open>str.strip()\<close> removes the characters for which \<^verbatim>\<open>isspace()\<close> holds.
\<close>

definition is_space :: "char \<Rightarrow> bool" where
  "is_space c = (of_char c \<in> {9::nat, 10, 11, 12, 13, 28, 29, 30, 31, 32, 133, 160})"

definition strip :: "string \<Rightarrow> string" where
  "strip s = rev (dropWhile is_space (rev (dropWhile is_space s)))"

text \<open>\<^verbatim>\<open>sub in s\<close> for strings.\<close>

fun contains :: "string \<Rightarrow> string \<Rightarrow> bool" where
  "contains sub [] = (sub = [])"
| "contains sub (c # s) = (take (length sub) (c # s) = sub \<or> contains sub s)"

section \<open>Binary floating point\<close>

text \<open>
  Python's \<^verbatim>\<open>float\<close> is an IEEE-754 double. A finite double is modelled by the rational
  number it denotes; \<open>fl\<close> rounds a rational to 53 significant bits, ties to the even
  significand, which is what every arithmetic operation, the conversion of an integer and
  the reading of a decimal literal do. The exponent range enters only through the overflow
  threshold \<open>2 ^ 1024\<close>: the operands below are integers and multiples of \<open>2 powi (-54)\<close>,
  so no result is subnormal.
\<close>

definition round_half_even :: "rat \<Rightarrow> int" where
  "round_half_even x =
     (let f = \<lfloor>x\<rfloor>; d = x - of_int f
      in if d < 1 / 2 then f
         else if 1 / 2 < d then f + 1
         else if even f then f else f + 1)"

text \<open>\<open>ilog2 x\<close> is the exponent \<open>e\<close> with \<open>2 powi e \<le> \<bar>x\<bar> < 2 powi (e + 1)\<close>, for \<open>x \<noteq> 0\<close>.\<close>

definition ilog2 :: "rat \<Rightarrow> int" where
  "ilog2 x =
     (let (p, q) = quotient_of \<bar>x\<bar>; e = bitlen p - bitlen q
      in if 2 powi e \<le> \<bar>x\<bar> then e else e - 1)"

definition fl :: "rat \<Rightarrow> rat" where
  "fl x = (if x = 0 then 0
           else let u = 2 powi (ilog2 x - 52)
                in of_int (round_half_even (x / u)) * u)"

text \<open>A rounded value of magnitude \<open>2 ^ 1024\<close> or more is beyond the largest double.\<close>

definition overflows :: "rat \<Rightarrow> bool" where
  "overflows y = (y \<noteq> 0 \<and> 1024 \<le> ilog2 y)"

text \<open>
  \<^verbatim>\<open>float(i)\<close>, implicit in \<^verbatim>\<open>i * 0.25\<close> and \<^verbatim>\<open>risk += i\<close>: raises \<^verbatim>\<open>OverflowError\<close> when the
  integer is too large for a double.
\<close>

definition float_of_int :: "int \<Rightarrow> exn + rat" where
  "float_of_int i =
     (let y = fl (of_int i)
      in if overflows y then Inl (OverflowError ''int too large to convert to float'')
         else Inr y)"

text \<open>Product of two doubles. The uses below multiply by a constant below 1: no overflow.\<close>

definition fmul :: "rat \<Rightarrow> rat \<Rightarrow> rat" where
  "fmul x y = fl (x * y)"

text \<open>
  Sum of two doubles. A sum beyond the largest double is \<^verbatim>\<open>inf\<close> in Python and stays
  \<^verbatim>\<open>inf\<close> under the additions that follow in \<^verbatim>\<open>compute_final\<close>, until \<^verbatim>\<open>round(risk)\<close> raises
  \<^verbatim>\<open>OverflowError\<close>; the model raises at the sum.
\<close>

definition fadd :: "rat \<Rightarrow> rat \<Rightarrow> exn + rat" where
  "fadd x y =
     (let z = fl (x + y)
      in if overflows z then Inl (OverflowError ''cannot convert float infinity to integer'')
         else Inr z)"

text \<open>\<^verbatim>\<open>a / b\<close> on integers (true division, correctly rounded), for \<open>b \<noteq> 0\<close>.\<close>

definition true_div :: "int \<Rightarrow> int \<Rightarrow> exn + rat" where
  "true_div a b =
     (let y = fl (of_int a / of_int b)
      in if overflows y then Inl (OverflowError ''integer division result too large for a float'')
         else Inr y)"

text \<open>\<^verbatim>\<open>round(x, 1)\<close>: the decimal with one digit nearest to the double, read back as a double.\<close>

definition round1 :: "rat \<Rightarrow> rat" where
  "round1 x = fl (of_int (round_half_even (x * 10)) / 10)"

text \<open>The literals \<^verbatim>\<open>0.25\<close>, \<^verbatim>\<open>0.35\<close> and \<^verbatim>\<open>0.6\<close> are the doubles nearest to them.\<close>

definition lit_0_25 :: rat where "lit_0_25 = fl (1 / 4)"
definition lit_0_35 :: rat where "lit_0_35 = fl (7 / 20)"
definition lit_0_6 :: rat where "lit_0_6 = fl (3 / 5)"

section \<open>Final scoring: \<^verbatim>\<open>compute_final\<close>\<close>

text \<open>
  \<^verbatim>\<open>int(x)\<close> on a string: optional surrounding whitespace, an optional sign, decimal digits
  with single underscores between them. The whitespace \<^verbatim>\<open>int\<close> skips is not that of
  \<^verbatim>\<open>str.strip()\<close>: the separators 28 to 31 are not skipped, and a string with one of them
  is rejected.
\<close>

definition is_int_space :: "char \<Rightarrow> bool" where
  "is_int_space c = (of_char c \<in> {9::nat, 10, 11, 12, 13, 32, 133, 160})"

definition int_strip :: "string \<Rightarrow> string" where
  "int_strip s = rev (dropWhile is_int_space (rev (dropWhile is_int_space s)))"

definition is_digit :: "char \<Rightarrow> bool" where
  "is_digit c = (48 \<le> (of_char c :: nat) \<and> (of_char c :: nat) \<le> 57)"

fun digits_value :: "string \<Rightarrow> bool \<Rightarrow> int \<Rightarrow> int option" where
  "digits_value [] after_digit acc = (if after_digit then Some acc else None)"
| "digits_value (c # cs) after_digit acc =
     (if is_digit c then digits_value cs True (10 * acc + (int (of_char c) - 48))
      else if c = CHR ''_'' \<and> after_digit \<and> cs \<noteq> [] \<and> is_digit (hd cs)
        then digits_value cs False acc
      else None)"

definition int_of_str :: "string \<Rightarrow> int option" where
  "int_of_str s =
     (case int_strip s of
        [] \<Rightarrow> None
      | c # cs \<Rightarrow>
          if c = CHR ''-'' then map_option uminus (digits_value cs False 0)
          else if c = CHR ''+'' then digits_value cs False 0
          else digits_value (c # cs) False 0)"

fun py_int :: "pyval \<Rightarrow> exn + int" where
  "py_int (PInt i) = Inr i"
| "py_int (PBool b) = Inr (if b then 1 else 0)"
| "py_int (PStr s) =
     (case int_of_str s of
        None \<Rightarrow> Inl (ValueError ''invalid literal for int() with base 10'')
      | Some i \<Rightarrow> Inr i)"
| "py_int v = Inl (TypeError ''int() argument must be a string, a bytes-like object or a real number'')"

text \<open>\<^verbatim>\<open>int(d.get(k, 0) or 0)\<close>.\<close>

definition int_or_0 :: "dict \<Rightarrow> string \<Rightarrow> exn + int" where
  "int_or_0 d k =
     (let v = get_default d k (PInt 0)
      in py_int (if truthy v then v else PInt 0))"

text \<open>\<^verbatim>\<open>r.get(k)\<close> on a value that may not be a dictionary.\<close>

fun attr_get :: "pyval \<Rightarrow> string \<Rightarrow> exn + pyval option" where
  "attr_get (PDict d) k = Inr (get d k)"
| "attr_get v k = Inl (AttributeError ''object has no attribute get'')"

text \<open>\<^verbatim>\<open>sum(1 for r in results if r.get("verdict") in vs)\<close>.\<close>

fun count_verdicts :: "string list \<Rightarrow> pyval list \<Rightarrow> exn + int" where
  "count_verdicts vs [] = Inr 0"
| "count_verdicts vs (r # rs) =
     ebind (attr_get r ''verdict'') (\<lambda>v.
     ebind (count_verdicts vs rs) (\<lambda>n.
       Inr ((if v \<in> set (map (\<lambda>s. Some (PStr s)) vs) then 1 else 0) + n)))"

text \<open>\<^verbatim>\<open>sum(r.get("confidence", 0) for r in results)\<close>, the accumulator starting at 0.\<close>

fun py_add_int :: "int \<Rightarrow> pyval \<Rightarrow> exn + int" where
  "py_add_int acc (PInt i) = Inr (acc + i)"
| "py_add_int acc (PBool b) = Inr (acc + (if b then 1 else 0))"
| "py_add_int acc v = Inl (TypeError ''unsupported operand type(s) for +'')"

fun sum_confidence :: "int \<Rightarrow> pyval list \<Rightarrow> exn + int" where
  "sum_confidence acc [] = Inr acc"
| "sum_confidence acc (r # rs) =
     ebind (attr_get r ''confidence'') (\<lambda>v.
     ebind (py_add_int acc (case v of None \<Rightarrow> PInt 0 | Some c \<Rightarrow> c)) (\<lambda>acc'.
       sum_confidence acc' rs))"

text \<open>Lines 520 to 525: the risk score.\<close>

definition risk_sum :: "int \<Rightarrow> int \<Rightarrow> int \<Rightarrow> int \<Rightarrow> exn + rat" where
  "risk_sum splice_score time_score false_or_mixed unclear =
     ebind (float_of_int splice_score) (\<lambda>s.
     ebind (fadd 0 (fmul s lit_0_25)) (\<lambda>risk1.
     ebind (float_of_int time_score) (\<lambda>t.
     ebind (fadd risk1 (fmul t lit_0_35)) (\<lambda>risk2.
     ebind (float_of_int (false_or_mixed * 14)) (\<lambda>f.
     ebind (fadd risk2 f) (\<lambda>risk3.
     ebind (float_of_int (unclear * 5)) (\<lambda>u.
       fadd risk3 u)))))))"

definition risk_score :: "int \<Rightarrow> int \<Rightarrow> int \<Rightarrow> int \<Rightarrow> exn + int" where
  "risk_score splice_score time_score false_or_mixed unclear =
     ebind (risk_sum splice_score time_score false_or_mixed unclear) (\<lambda>risk.
       Inr (max 0 (min 100 (round_half_even risk))))"

text \<open>Lines 528 to 536: the verdict.\<close>

definition select_verdict :: "int \<Rightarrow> int \<Rightarrow> int \<Rightarrow> string" where
  "select_verdict false_or_mixed time_score risk =
     (if false_or_mixed = 0 \<and> time_score < 60 then
        (if risk < 70 then ''REAL'' else ''MISLEADING'')
      else if false_or_mixed \<ge> 2 \<or> risk \<ge> 75 then ''FAKE''
      else if false_or_mixed \<ge> 1 \<or> risk \<ge> 50 \<or> time_score \<ge> 60 then ''MISLEADING''
      else ''REAL'')"

text \<open>
  Line 538: the confidence. \<open>risk\<close> is between 0 and 100 here, so neither the conversion
  nor the difference overflows.
\<close>

definition confidence_of :: "int \<Rightarrow> int" where
  "confidence_of risk =
     max 50 (min 95 (round_half_even (fl (90 - fmul (fl (of_int risk)) lit_0_6))))"

record final =
  verdict :: string
  confidence_percent :: int
  misinformation_risk_score :: int
  avg_factcheck_confidence :: rat
  false_or_mixed_claims :: int
  unclear_claims :: int
  splice_risk_score :: int
  timeline_mismatch_risk_score :: int
  likely_event_year :: pyval
  posted_date :: pyval

definition compute_final :: "dict \<Rightarrow> dict \<Rightarrow> dict \<Rightarrow> exn + final" where
  "compute_final factcheck splice_a timing =
     ebind (py_iter (get_default factcheck ''results'' (PList []))) (\<lambda>results.
     ebind (count_verdicts [''false'', ''mixed''] results) (\<lambda>false_or_mixed.
     ebind (count_verdicts [''unclear''] results) (\<lambda>unclear.
     ebind (sum_confidence 0 results) (\<lambda>total.
     ebind (true_div total (max 1 (int (length results)))) (\<lambda>avg_conf.
     ebind (int_or_0 splice_a ''splice_risk_score'') (\<lambda>splice_score.
     ebind (int_or_0 timing ''timeline_mismatch_risk_score'') (\<lambda>time_score.
     ebind (risk_score splice_score time_score false_or_mixed unclear) (\<lambda>risk.
       Inr \<lparr> verdict = select_verdict false_or_mixed time_score risk,
             confidence_percent = confidence_of risk,
             misinformation_risk_score = risk,
             avg_factcheck_confidence = round1 avg_conf,
             false_or_mixed_claims = false_or_mixed,
             unclear_claims = unclear,
             splice_risk_score = splice_score,
             timeline_mismatch_risk_score = time_score,
             likely_event_year = get_default timing ''likely_event_year'' PNone,
             posted_date = get_default timing ''posted_date'' PNone \<rparr>))))))))"

section \<open>The retry helper: \<^verbatim>\<open>with_retries\<close>\<close>

text \<open>
  \<^verbatim>\<open>debug(...)\<close> is called at lines 93 and 299 of \<^verbatim>\<open>backend.py\<close>. No statement of the module
  defines or imports a name \<^verbatim>\<open>debug\<close>, and it is not a builtin: evaluating the call
  raises \<^verbatim>\<open>NameError\<close>. (\<^verbatim>\<open>log_step\<close> and \<^verbatim>\<open>log_info\<close> are defined and only print; they are
  left out.)
\<close>

definition debug :: "string \<Rightarrow> exn + unit" where
  "debug msg = Inl (NameError ''name debug is not defined'')"

text \<open>
  \<open>fn n\<close> is the outcome of the \<open>n\<close>-th call of \<^verbatim>\<open>fn()\<close>, counted from 1. The result records
  what \<^verbatim>\<open>with_retries\<close> returns or raises, the durations passed to \<^verbatim>\<open>time.sleep\<close> in
  order, and the number of calls of \<^verbatim>\<open>fn\<close>. The duration \<^verbatim>\<open>base_sleep * (2 ** (attempt - 1))\<close>
  is exact in binary floating point (scaling by a power of two).
\<close>

record 'a retry_result =
  outcome :: "exn + 'a"
  slept :: "rat list"
  calls :: nat

fun retry_loop ::
  "(nat \<Rightarrow> exn + 'a) \<Rightarrow> rat \<Rightarrow> nat \<Rightarrow> nat \<Rightarrow> exn option \<Rightarrow> rat list \<Rightarrow> 'a retry_result" where
  "retry_loop fn base_sleep attempt 0 last_err sl =
     \<lparr> outcome = Inl (RuntimeError (''Failed after retries: '' @
                         (case last_err of None \<Rightarrow> ''None'' | Some e \<Rightarrow> str_exn e))),
       slept = sl, calls = attempt - 1 \<rparr>"
| "retry_loop fn base_sleep attempt (Suc n) last_err sl =
     (case fn attempt of
        Inr v \<Rightarrow> \<lparr> outcome = Inr v, slept = sl, calls = attempt \<rparr>
      | Inl e \<Rightarrow>
          if is_TypeError e then \<lparr> outcome = Inl e, slept = sl, calls = attempt \<rparr>
          else
            (let sleep = base_sleep * 2 ^ (attempt - 1)
             in case debug (''Retry error details: '' @ str_exn e) of
                  Inl e' \<Rightarrow> \<lparr> outcome = Inl e', slept = sl, calls = attempt \<rparr>
                | Inr _ \<Rightarrow> retry_loop fn base_sleep (Suc attempt) n (Some e) (sl @ [sleep])))"

definition with_retries :: "(nat \<Rightarrow> exn + 'a) \<Rightarrow> int \<Rightarrow> rat \<Rightarrow> 'a retry_result" where
  "with_retries fn retries base_sleep = retry_loop fn base_sleep 1 (nat retries) None []"

section \<open>Web evidence: \<^verbatim>\<open>web_evidence_for_claim\<close>\<close>

definition WEB_CONTENT_TRIM_CHARS :: nat where
  "WEB_CONTENT_TRIM_CHARS = 3500"

text \<open>
  Lines 375 to 377 on one result \<open>r2\<close>. \<^verbatim>\<open>len\<close> is defined on strings, lists and
  dictionaries; the slice and the concatenation with \<^verbatim>\<open>"..."\<close> succeed on strings only
  (for a list or a dictionary longer than the cap Python raises; the class is taken to be
  \<^verbatim>\<open>TypeError\<close>).
\<close>

definition trim_content :: "dict \<Rightarrow> exn + dict" where
  "trim_content r2 =
     (let content = (case get r2 ''content'' of
                       None \<Rightarrow> PStr []
                     | Some v \<Rightarrow> if truthy v then v else PStr [])
      in case content of
           PStr s \<Rightarrow>
             if length s > WEB_CONTENT_TRIM_CHARS
             then Inr (setitem ''content'' (PStr (take WEB_CONTENT_TRIM_CHARS s @ ''...'')) r2)
             else Inr r2
         | PList xs \<Rightarrow>
             if length xs > WEB_CONTENT_TRIM_CHARS
             then Inl (TypeError ''can only concatenate list (not str) to list'')
             else Inr r2
         | PDict d \<Rightarrow>
             if length d > WEB_CONTENT_TRIM_CHARS
             then Inl (TypeError ''unhashable type: slice'')
             else Inr r2
         | _ \<Rightarrow> Inl (TypeError ''object has no len()''))"

text \<open>
  \<^verbatim>\<open>r2 = dict(r)\<close>. A dictionary is copied. Any other value is iterated, and each element
  must itself iterate to exactly two items, a key and a value, bound in order (a later
  binding of a key replaces the earlier one): an element that is not iterable raises
  \<^verbatim>\<open>TypeError\<close>, one of another length \<^verbatim>\<open>ValueError\<close>, and a key that is a list or a dictionary
  \<^verbatim>\<open>TypeError\<close> (unhashable). The keys of \<open>dict\<close> are strings, as in every JSON object; a pair
  whose key is null, a boolean or a number would give a Python dictionary that \<open>dict\<close> cannot
  hold, and the model raises \<^verbatim>\<open>TypeError\<close> for it, where Python returns.
\<close>

fun dict_from_pairs :: "pyval list \<Rightarrow> dict \<Rightarrow> exn + dict" where
  "dict_from_pairs [] d = Inr d"
| "dict_from_pairs (x # xs) d =
     (case py_iter x of
        Inl e \<Rightarrow>
          Inl (TypeError ''cannot convert dictionary update sequence element to a sequence'')
      | Inr items \<Rightarrow>
          if length items \<noteq> 2 then
            Inl (ValueError ''dictionary update sequence element has the wrong length; 2 is required'')
          else
            (case items ! 0 of
               PStr k \<Rightarrow> dict_from_pairs xs (setitem k (items ! 1) d)
             | PList ys \<Rightarrow> Inl (TypeError ''unhashable type: list'')
             | PDict kvs \<Rightarrow> Inl (TypeError ''unhashable type: dict'')
             | _ \<Rightarrow> Inl (TypeError ''key is not a string'')))"

definition py_dict :: "pyval \<Rightarrow> exn + dict" where
  "py_dict v =
     (case v of
        PDict d \<Rightarrow> Inr d
      | _ \<Rightarrow>
          (case py_iter v of
             Inl e \<Rightarrow> Inl e
           | Inr xs \<Rightarrow> dict_from_pairs xs []))"

fun trim_results :: "pyval list \<Rightarrow> exn + dict list" where
  "trim_results [] = Inr []"
| "trim_results (r # rs) =
     ebind (py_dict r) (\<lambda>r2.
     ebind (trim_content r2) (\<lambda>r2'.
     ebind (trim_results rs) (\<lambda>rest. Inr (r2' # rest))))"

text \<open>
  \<open>search n\<close> is the outcome of the \<open>n\<close>-th call of the closure \<^verbatim>\<open>_search\<close>, that is of
  \<^verbatim>\<open>tavily_client.search\<close> with the claim as query. The function returns the list bound to
  \<^verbatim>\<open>"results"\<close> in the dictionary it builds.
\<close>

definition web_evidence_for_claim :: "(nat \<Rightarrow> exn + pyval) \<Rightarrow> exn + dict list" where
  "web_evidence_for_claim search =
     ebind (outcome (with_retries search 3 1)) (\<lambda>res.
     ebind (py_iter (case res of
                       PDict d \<Rightarrow> get_default d ''results'' (PList [])
                     | _ \<Rightarrow> PList [])) (\<lambda>results.
       trim_results results))"

section \<open>JSON extraction: \<^verbatim>\<open>gemini_json\<close>\<close>

text \<open>\<^verbatim>\<open>s.split(sep)\<close> for a non-empty separator: the parts between its occurrences, from the left.\<close>

function py_split :: "string \<Rightarrow> string \<Rightarrow> string \<Rightarrow> string list" where
  "py_split sep cur [] = [cur]"
| "py_split sep cur (c # s) =
     (if sep \<noteq> [] \<and> take (length sep) (c # s) = sep
      then cur # py_split sep [] (drop (length sep) (c # s))
      else py_split sep (cur @ [c]) s)"
  by pat_completeness auto
termination
  by (relation "measure (\<lambda>(sep, cur, s). length s)") auto

text \<open>\<^verbatim>\<open>s.replace(old, new, 1)\<close> for a non-empty \<open>old\<close>.\<close>

fun replace_first :: "string \<Rightarrow> string \<Rightarrow> string \<Rightarrow> string" where
  "replace_first old new [] = []"
| "replace_first old new (c # s) =
     (if take (length old) (c # s) = old then new @ drop (length old) (c # s)
      else c # replace_first old new s)"

text \<open>\<^verbatim>\<open>s.find(c)\<close> and \<^verbatim>\<open>s.rfind(c)\<close> for one character: an index, or -1.\<close>

fun find_char :: "char \<Rightarrow> string \<Rightarrow> int" where
  "find_char c [] = - 1"
| "find_char c (x # s) =
     (if x = c then 0 else (let i = find_char c s in if i = - 1 then - 1 else i + 1))"

definition rfind_char :: "char \<Rightarrow> string \<Rightarrow> int" where
  "rfind_char c s =
     (let i = find_char c (rev s) in if i = - 1 then - 1 else int (length s) - 1 - i)"

text \<open>\<^verbatim>\<open>s[a:b]\<close> for \<open>0 \<le> a\<close> and \<open>0 \<le> b\<close>.\<close>

definition slice :: "string \<Rightarrow> int \<Rightarrow> int \<Rightarrow> string" where
  "slice s a b = take (nat (b - a)) (drop (nat a) s)"

definition fence :: string where
  "fence = [CHR 0x60, CHR 0x60, CHR 0x60]"

text \<open>Lines 304 to 307 (and 216 to 219): the text of the first fenced segment, if any.\<close>

definition unfence :: "string \<Rightarrow> string" where
  "unfence text =
     (if contains fence text then
        (let parts = py_split fence [] text
         in if length parts \<ge> 2 then strip (replace_first ''json'' [] (parts ! 1)) else text)
      else text)"

text \<open>Lines 309 to 311 (and 221 to 223): from the first opening to the last closing brace.\<close>

definition json_span :: "string \<Rightarrow> string option" where
  "json_span text =
     (let start = find_char (CHR ''{'') text; end = rfind_char (CHR ''}'') text
      in if start \<noteq> - 1 \<and> end \<noteq> - 1 \<and> end > start then Some (slice text start (end + 1))
         else None)"

text \<open>
  Lines 302 to 314, the rest of the body of \<^verbatim>\<open>gemini_json\<close> after the model call, on the text
  attribute of the model's response (\<open>None\<close> when absent). \<open>loads\<close> is \<^verbatim>\<open>json.loads\<close>; on a text
  that starts with an opening brace it returns a dictionary or raises.
\<close>

definition extract_json :: "(string \<Rightarrow> exn + dict) \<Rightarrow> string option \<Rightarrow> exn + dict" where
  "extract_json loads resp_text =
     (let text = unfence (strip (case resp_text of None \<Rightarrow> [] | Some t \<Rightarrow> t))
      in case json_span text of
           Some raw_json \<Rightarrow> loads raw_json
         | None \<Rightarrow>
             Inl (ValueError (''Gemini did not return valid JSON.'' @ [CHR 0x0A] @ ''Raw:'' @
                              [CHR 0x0A] @ take 1200 text)))"

text \<open>
  \<open>generate prompt\<close> is the outcome of \<^verbatim>\<open>gemini_text_model.generate_content(prompt)\<close> followed
  by reading \<^verbatim>\<open>resp.text\<close>. The prompt is kept abstract (type \<open>'p\<close>).
\<close>

definition gemini_json ::
  "(string \<Rightarrow> exn + dict) \<Rightarrow> ('p \<Rightarrow> exn + string option) \<Rightarrow> 'p \<Rightarrow> exn + dict" where
  "gemini_json loads generate prompt =
     ebind (debug ''gemini_json() prompt length'') (\<lambda>_.
     ebind (generate prompt) (\<lambda>resp_text.
       extract_json loads resp_text))"

section \<open>Fact checking: \<^verbatim>\<open>gemini_factcheck\<close>\<close>

text \<open>
  The prompt of \<^verbatim>\<open>gemini_factcheck_one_claim\<close> is determined by the claim, its source and the
  web sources; it is represented by the three.
\<close>

definition gemini_factcheck_one_claim ::
  "(string \<Rightarrow> exn + dict) \<Rightarrow> (string \<times> string \<times> dict list \<Rightarrow> exn + string option) \<Rightarrow>
     string \<Rightarrow> string \<Rightarrow> dict list \<Rightarrow> exn + dict" where
  "gemini_factcheck_one_claim loads generate claim claim_source sources =
     gemini_json loads generate (claim, claim_source, sources)"

text \<open>\<^verbatim>\<open>(c.get(k) or dflt).strip()\<close>.\<close>

definition get_stripped :: "pyval \<Rightarrow> string \<Rightarrow> string \<Rightarrow> exn + string" where
  "get_stripped c k dflt =
     ebind (attr_get c k) (\<lambda>v.
       case v of
         None \<Rightarrow> Inr (strip dflt)
       | Some x \<Rightarrow>
           if \<not> truthy x then Inr (strip dflt)
           else (case x of
                   PStr s \<Rightarrow> Inr (strip s)
                 | _ \<Rightarrow> Inl (AttributeError ''object has no attribute strip'')))"

definition no_sources_verdict :: "string \<Rightarrow> string \<Rightarrow> dict" where
  "no_sources_verdict claim claim_source =
     [(''claim'', PStr claim),
      (''claim_source'', PStr claim_source),
      (''verdict'', PStr ''unclear''),
      (''confidence'', PInt 0),
      (''correct_information'', PStr []),
      (''explanation'', PStr ''No web sources found for this claim.''),
      (''citations'', PList [])]"

definition fill_defaults :: "string \<Rightarrow> string \<Rightarrow> dict \<Rightarrow> dict" where
  "fill_defaults claim claim_source v =
     setdefault ''citations'' (PList [])
       (setdefault ''explanation'' (PStr [])
         (setdefault ''correct_information'' (PStr [])
           (setdefault ''confidence'' (PInt 0)
             (setdefault ''verdict'' (PStr ''unclear'')
               (setdefault ''claim_source'' (PStr claim_source)
                 (setdefault ''claim'' (PStr claim) v))))))"

text \<open>
  The loop of lines 417 to 448. \<open>web i claim\<close> is the outcome of
  \<^verbatim>\<open>web_evidence_for_claim(claim)\<close> for the claim at position \<open>i\<close> (the list under
  \<^verbatim>\<open>"results"\<close>), and \<open>one i claim claim_source sources\<close> that of
  \<^verbatim>\<open>gemini_factcheck_one_claim\<close> there; \<open>out\<close> is the list built so far.
\<close>

fun factcheck_claims ::
  "(nat \<Rightarrow> string \<Rightarrow> exn + dict list) \<Rightarrow>
   (nat \<Rightarrow> string \<Rightarrow> string \<Rightarrow> dict list \<Rightarrow> exn + dict) \<Rightarrow>
   nat \<Rightarrow> pyval list \<Rightarrow> dict list \<Rightarrow> exn + dict list" where
  "factcheck_claims web one i [] out = Inr out"
| "factcheck_claims web one i (c # cs) out =
     ebind (get_stripped c ''claim'' []) (\<lambda>claim.
     ebind (get_stripped c ''claim_source'' ''video'') (\<lambda>claim_source.
       if claim = [] then factcheck_claims web one (Suc i) cs out
       else
         ebind (web i claim) (\<lambda>sources.
           if sources = [] then
             factcheck_claims web one (Suc i) cs (out @ [no_sources_verdict claim claim_source])
           else
             ebind (one i claim claim_source sources) (\<lambda>v.
               factcheck_claims web one (Suc i) cs
                 (out @ [fill_defaults claim claim_source v])))))"

text \<open>\<^verbatim>\<open>claims = structured.get("claims", []) or []\<close>, then the loop.\<close>

definition claims_of :: "dict \<Rightarrow> exn + pyval list" where
  "claims_of structured =
     (let v = get_default structured ''claims'' (PList [])
      in py_iter (if truthy v then v else PList []))"

definition gemini_factcheck_with ::
  "(nat \<Rightarrow> string \<Rightarrow> exn + dict list) \<Rightarrow>
   (nat \<Rightarrow> string \<Rightarrow> string \<Rightarrow> dict list \<Rightarrow> exn + dict) \<Rightarrow> dict \<Rightarrow> exn + dict list" where
  "gemini_factcheck_with web one structured =
     ebind (claims_of structured) (\<lambda>claims. factcheck_claims web one 1 claims [])"

text \<open>
  \<open>tavily i claim n\<close> is the outcome of the \<open>n\<close>-th search call made for the claim at
  position \<open>i\<close>, and \<open>generate i\<close> the reasoning model's answer there.
\<close>

definition gemini_factcheck ::
  "(string \<Rightarrow> exn + dict) \<Rightarrow> (nat \<Rightarrow> string \<Rightarrow> nat \<Rightarrow> exn + pyval) \<Rightarrow>
   (nat \<Rightarrow> string \<times> string \<times> dict list \<Rightarrow> exn + string option) \<Rightarrow> dict \<Rightarrow> exn + dict list" where
  "gemini_factcheck loads tavily generate structured =
     gemini_factcheck_with
       (\<lambda>i claim. web_evidence_for_claim (tavily i claim))
       (\<lambda>i. gemini_factcheck_one_claim loads (generate i))
       structured"

section \<open>AI-generation detector: \<^verbatim>\<open>check_video_synthid\<close>\<close>







section \<open>The standalone detector: \<^verbatim>\<open>detector.py\<close>\<close>

text \<open>
  \<^verbatim>\<open>str.lower()\<close> on the characters below 256: the ASCII capitals and the Latin-1 capitals
  (the multiplication sign apart) move up by 32.
\<close>

definition lower_char :: "char \<Rightarrow> char" where
  "lower_char c =
     (let n = (of_char c :: nat)
      in if (65 \<le> n \<and> n \<le> 90) \<or> (192 \<le> n \<and> n \<le> 222 \<and> n \<noteq> 215) then char_of (n + 32) else c)"

definition lower :: "string \<Rightarrow> string" where
  "lower s = map lower_char s"

text \<open>
  The metadata object comes from the \<^verbatim>\<open>deffcode\<close> library; its type \<open>'m\<close> is left open.
  \<open>probe\<close> is the outcome of \<^verbatim>\<open>Sourcer(video_path).probe_stream().retrieve_metadata()\<close>.
\<close>

definition get_video_metadata :: "exn + 'm \<Rightarrow> 'm option" where
  "get_video_metadata probe = (case probe of Inl e \<Rightarrow> None | Inr m \<Rightarrow> Some m)"

text \<open>
  \<open>py_bool\<close> is the truth value of a metadata object (\<^verbatim>\<open>not metadata\<close> is its negation) and
  \<open>py_str\<close> is \<^verbatim>\<open>str(metadata)\<close>.
\<close>

definition is_metadata_real :: "('m \<Rightarrow> bool) \<Rightarrow> ('m \<Rightarrow> string) \<Rightarrow> 'm option \<Rightarrow> bool" where
  "is_metadata_real py_bool py_str metadata =
     (case metadata of
        None \<Rightarrow> False
      | Some m \<Rightarrow>
          if \<not> py_bool m then False
          else
            (let real_indicators =
                   [contains ''device'' (lower (py_str m)),
                    contains ''camera'' (lower (py_str m)),
                    contains ''recording'' (lower (py_str m))]
             in list_ex (\<lambda>b. b) real_indicators))"

text \<open>
  \<^verbatim>\<open>check_with_twelvelabs\<close> returns \<^verbatim>\<open>None\<close> on both paths, whether or not constructing the
  client raises.
\<close>

definition check_with_twelvelabs :: "exn + unit \<Rightarrow> pyval" where
  "check_with_twelvelabs client = (case client of Inl e \<Rightarrow> PNone | Inr _ \<Rightarrow> PNone)"

text \<open>The returned dictionary; \<open>api_result\<close> is \<open>None\<close> when the key is absent.\<close>

record 'm detection =
  is_ai :: bool
  reason :: string
  metadata :: "'m option"
  api_result :: "pyval option"

definition detect_ai_video ::
  "('m \<Rightarrow> bool) \<Rightarrow> ('m \<Rightarrow> string) \<Rightarrow> exn + 'm \<Rightarrow> exn + unit \<Rightarrow> 'm detection" where
  "detect_ai_video py_bool py_str probe client =
     (let md = get_video_metadata probe
      in if is_metadata_real py_bool py_str md then
           \<lparr> is_ai = False, reason = ''Metadata proves authenticity'', metadata = md,
             api_result = None \<rparr>
         else
           (let r = check_with_twelvelabs client
            in \<lparr> is_ai = True, reason = ''Could not verify authenticity'', metadata = md,
                 api_result = Some r \<rparr>))"

section \<open>The statements of the specification\<close>

text \<open>
  The risk formula in exact arithmetic, as the specification writes it:
  \<open>0.25 \<cdot> spliceScore + 0.35 \<cdot> timelineScore + 14 \<cdot> countFalseOrMixed + 5 \<cdot> countUnclear\<close>,
  rounded and clamped to 0..100. The specification does not say how a value halfway between
  two integers is rounded; both common conventions are given.
\<close>

definition exact_risk_sum :: "int \<Rightarrow> int \<Rightarrow> int \<Rightarrow> int \<Rightarrow> rat" where
  "exact_risk_sum s t f u = of_int s / 4 + 7 * of_int t / 20 + 14 * of_int f + 5 * of_int u"

definition round_half_up :: "rat \<Rightarrow> int" where
  "round_half_up x = \<lfloor>x + 1 / 2\<rfloor>"

definition clamp :: "int \<Rightarrow> int \<Rightarrow> int \<Rightarrow> int" where
  "clamp lo hi x = max lo (min hi x)"

text \<open>The number of results whose verdict is one of \<open>vs\<close>.\<close>

definition has_verdict :: "string list \<Rightarrow> pyval \<Rightarrow> bool" where
  "has_verdict vs r =
     (case r of PDict d \<Rightarrow> get d ''verdict'' \<in> set (map (\<lambda>s. Some (PStr s)) vs) | _ \<Rightarrow> False)"

definition count_with_verdict :: "string list \<Rightarrow> pyval list \<Rightarrow> int" where
  "count_with_verdict vs rs = int (length (filter (has_verdict vs) rs))"

text \<open>
  A fact-check result as the data model has it: a dictionary whose confidence, when
  present, is an integer between 0 and 100.
\<close>

definition result_ok :: "pyval \<Rightarrow> bool" where
  "result_ok r =
     (case r of
        PDict d \<Rightarrow>
          (case get d ''confidence'' of
             None \<Rightarrow> True
           | Some (PInt c) \<Rightarrow> 0 \<le> c \<and> c \<le> 100
           | Some _ \<Rightarrow> False)
      | _ \<Rightarrow> False)"

text \<open>A score field that is an integer, null or missing, and the integer it stands for.\<close>

definition score_ok :: "dict \<Rightarrow> string \<Rightarrow> bool" where
  "score_ok d k = (case get d k of None \<Rightarrow> True | Some PNone \<Rightarrow> True | Some (PInt i) \<Rightarrow> True | Some _ \<Rightarrow> False)"

definition score_of :: "dict \<Rightarrow> string \<Rightarrow> int" where
  "score_of d k = (case get d k of Some (PInt i) \<Rightarrow> i | _ \<Rightarrow> 0)"

text \<open>
  What the loop of \<^verbatim>\<open>gemini_factcheck\<close> does for the claim at position \<open>i\<close>: it raises,
  skips the claim (\<open>None\<close>), or emits one verdict.
\<close>

definition claim_step ::
  "(nat \<Rightarrow> string \<Rightarrow> exn + dict list) \<Rightarrow>
   (nat \<Rightarrow> string \<Rightarrow> string \<Rightarrow> dict list \<Rightarrow> exn + dict) \<Rightarrow> nat \<Rightarrow> pyval \<Rightarrow> exn + dict option" where
  "claim_step web one i c =
     ebind (get_stripped c ''claim'' []) (\<lambda>claim.
     ebind (get_stripped c ''claim_source'' ''video'') (\<lambda>claim_source.
       if claim = [] then Inr None
       else
         ebind (web i claim) (\<lambda>sources.
           if sources = [] then Inr (Some (no_sources_verdict claim claim_source))
           else
             ebind (one i claim claim_source sources) (\<lambda>v.
               Inr (Some (fill_defaults claim claim_source v))))))"

fun collect_steps ::
  "(nat \<Rightarrow> string \<Rightarrow> exn + dict list) \<Rightarrow>
   (nat \<Rightarrow> string \<Rightarrow> string \<Rightarrow> dict list \<Rightarrow> exn + dict) \<Rightarrow> nat \<Rightarrow> pyval list \<Rightarrow> exn + dict list" where
  "collect_steps web one i [] = Inr []"
| "collect_steps web one i (c # cs) =
     ebind (claim_step web one i c) (\<lambda>v.
     ebind (collect_steps web one (Suc i) cs) (\<lambda>rest.
       Inr (case v of None \<Rightarrow> rest | Some d \<Rightarrow> d # rest)))"

text \<open>A claim whose text, once stripped, is not empty.\<close>

definition claim_nonempty :: "pyval \<Rightarrow> bool" where
  "claim_nonempty c = (case get_stripped c ''claim'' [] of Inr s \<Rightarrow> s \<noteq> [] | Inl e \<Rightarrow> False)"

text \<open>
  Closeness after \<open>n\<close> roundings: each rounding to double precision moves a non-negative
  value by a factor between \<open>1 - eps\<close> and \<open>1 + eps\<close>.
\<close>

definition eps :: rat where
  "eps = 1 / 2 ^ 53"

definition rel_close :: "nat \<Rightarrow> rat \<Rightarrow> rat \<Rightarrow> bool" where
  "rel_close n a b \<longleftrightarrow> b * (1 - eps) ^ n \<le> a \<and> a \<le> b * (1 + eps) ^ n"

text \<open>
  The inputs of \<^verbatim>\<open>compute_final\<close> as the pipeline produces them: \<open>results\<close> iterates to \<open>rs\<close>,
  every result is a dictionary with an integer confidence between 0 and 100 (or none), and
  the two scores are integers, null or missing. The size bounds keep every conversion to
  double precision exact; no list or score of a run comes near them.
\<close>

definition typed_input :: "dict \<Rightarrow> dict \<Rightarrow> dict \<Rightarrow> pyval list \<Rightarrow> bool" where
  "typed_input fc sp tm rs \<longleftrightarrow>
     py_iter (get_default fc ''results'' (PList [])) = Inr rs \<and>
     list_all result_ok rs \<and> length rs < 2 ^ 48 \<and>
     score_ok sp ''splice_risk_score'' \<and> score_ok tm ''timeline_mismatch_risk_score'' \<and>
     \<bar>score_of sp ''splice_risk_score''\<bar> < 2 ^ 53 \<and>
     \<bar>score_of tm ''timeline_mismatch_risk_score''\<bar> < 2 ^ 53"

text \<open>The quantities the specification names.\<close>

definition spliceScore :: "dict \<Rightarrow> int" where
  "spliceScore sp = score_of sp ''splice_risk_score''"

definition timelineScore :: "dict \<Rightarrow> int" where
  "timelineScore tm = score_of tm ''timeline_mismatch_risk_score''"

definition countFalseOrMixed :: "pyval list \<Rightarrow> int" where
  "countFalseOrMixed rs = count_with_verdict [''false'', ''mixed''] rs"

definition countUnclear :: "pyval list \<Rightarrow> int" where
  "countUnclear rs = count_with_verdict [''unclear''] rs"

text \<open>The verdict rule in the words of the specification.\<close>

definition verdict_rule :: "int \<Rightarrow> int \<Rightarrow> int \<Rightarrow> string" where
  "verdict_rule cfm ts risk =
     (if cfm = 0 \<and> ts < 60 then (if risk < 70 then ''REAL'' else ''MISLEADING'')
      else if 2 \<le> cfm \<or> 75 \<le> risk then ''FAKE''
      else if 1 \<le> cfm \<or> 50 \<le> risk \<or> 60 \<le> ts then ''MISLEADING''
      else ''REAL'')"

section \<open>Basic facts about the embedding\<close>

lemma ebind_Inr [simp]: "ebind (Inr x) f = f x"
  by (simp add: ebind_def)

lemma ebind_Inl [simp]: "ebind (Inl e) f = Inl e"
  by (simp add: ebind_def)

lemma ebind_eq_Inr:
  "ebind m f = Inr y \<longleftrightarrow> (\<exists>x. m = Inr x \<and> f x = Inr y)"
  by (cases m) simp_all

section \<open>The retry helper\<close>

lemma retry_loop_first_ok:
  "0 < n \<Longrightarrow> fn a = Inr v \<Longrightarrow>
   retry_loop fn b a n le sl = \<lparr> outcome = Inr v, slept = sl, calls = a \<rparr>"
  by (cases n) simp_all

lemma retry_loop_first_TypeError:
  "0 < n \<Longrightarrow> fn a = Inl e \<Longrightarrow> is_TypeError e \<Longrightarrow>
   retry_loop fn b a n le sl = \<lparr> outcome = Inl e, slept = sl, calls = a \<rparr>"
  by (cases n) simp_all

lemma retry_loop_first_other:
  "0 < n \<Longrightarrow> fn a = Inl e \<Longrightarrow> \<not> is_TypeError e \<Longrightarrow>
   retry_loop fn b a n le sl =
     \<lparr> outcome = Inl (NameError ''name debug is not defined''), slept = sl, calls = a \<rparr>"
  by (cases n) (simp_all add: debug_def)

text \<open>
  C6 (retry helper), evaluated where it fails: a function that fails transiently once and
  then succeeds, with the default ceiling of 4 attempts and base 1.5. The specification
  expects the success value after one sleep of 1.5 seconds. The handler reaches the call
  of the undefined \<^verbatim>\<open>debug\<close> before \<^verbatim>\<open>time.sleep\<close>: the helper raises \<^verbatim>\<open>NameError\<close> after
  one call, without sleeping and without a second attempt.
\<close>

theorem with_retries_transient_once:
  "with_retries (\<lambda>n. if n \<le> 1 then Inl (ServiceError ''connection reset'') else Inr ''ok'') 4 (3 / 2) =
     \<lparr> outcome = Inl (NameError ''name debug is not defined''), slept = [], calls = 1 \<rparr>"
  by (simp add: with_retries_def retry_loop_first_other)

section \<open>The standalone detector\<close>

text \<open>
  C10. \<^verbatim>\<open>detect_ai_video\<close> returns \<open>is_ai = False\<close>, with reason "Metadata proves
  authenticity", exactly when metadata was extracted, is not empty, and its string form,
  put in lower case, contains "device", "camera" or "recording". In every other case,
  among them a failed extraction, it returns \<open>is_ai = True\<close> with reason "Could not verify
  authenticity".
\<close>

theorem detect_ai_video_metadata_rule:
  "(is_ai (detect_ai_video py_bool py_str probe client) \<longleftrightarrow>
      \<not> (\<exists>m. probe = Inr m \<and> py_bool m \<and>
             (contains ''device'' (lower (py_str m)) \<or>
              contains ''camera'' (lower (py_str m)) \<or>
              contains ''recording'' (lower (py_str m)))))
   \<and> (\<not> is_ai (detect_ai_video py_bool py_str probe client) \<longrightarrow>
        reason (detect_ai_video py_bool py_str probe client) = ''Metadata proves authenticity'')
   \<and> (is_ai (detect_ai_video py_bool py_str probe client) \<longrightarrow>
        reason (detect_ai_video py_bool py_str probe client) = ''Could not verify authenticity'')
   \<and> ((\<exists>e. probe = Inl e) \<longrightarrow> is_ai (detect_ai_video py_bool py_str probe client))"
  by (cases probe)
     (auto simp: detect_ai_video_def is_metadata_real_def get_video_metadata_def Let_def)

theorem detect_ai_video_metadata_rule_witness:
  "is_ai (detect_ai_video (\<lambda>m. m \<noteq> []) (\<lambda>m. m) (Inl (ValueError ''cannot open file'')) (Inr ()))
   \<and> reason (detect_ai_video (\<lambda>m. m \<noteq> []) (\<lambda>m. m) (Inl (ValueError ''cannot open file'')) (Inr ()))
       = ''Could not verify authenticity''
   \<and> \<not> is_ai (detect_ai_video (\<lambda>m. m \<noteq> []) (\<lambda>m. m) (Inr ''Camera: X100'') (Inr ()))
   \<and> reason (detect_ai_video (\<lambda>m. m \<noteq> []) (\<lambda>m. m) (Inr ''Camera: X100'') (Inr ()))
       = ''Metadata proves authenticity''"
proof -
  have c: "contains ''camera'' (lower ''Camera: X100'')"
    by code_simp
  show ?thesis
    using detect_ai_video_metadata_rule
            [of "\<lambda>m. m \<noteq> []" "\<lambda>m. m" "Inl (ValueError ''cannot open file'')" "Inr ()"]
          detect_ai_video_metadata_rule
            [of "\<lambda>m. m \<noteq> []" "\<lambda>m. m" "Inr ''Camera: X100''" "Inr ()"]
          c
    by auto
qed

section \<open>Trimming of web evidence\<close>

lemma py_dict_PDict [simp]: "py_dict (PDict d) = Inr d"
  by (simp add: py_dict_def)

lemma get_setitem: "get (setitem k v d) k' = (if k' = k then Some v else get d k')"
  by (induction d) (auto simp: get_def)

lemma trim_content_long:
  "get r ''content'' = Some (PStr s) \<Longrightarrow> WEB_CONTENT_TRIM_CHARS < length s \<Longrightarrow>
   trim_content r = Inr (setitem ''content'' (PStr (take WEB_CONTENT_TRIM_CHARS s @ ''...'')) r)"
  by (auto simp: trim_content_def)

lemma trim_content_short:
  "get r ''content'' = Some (PStr s) \<Longrightarrow> length s \<le> WEB_CONTENT_TRIM_CHARS \<Longrightarrow>
   trim_content r = Inr r"
  by (auto simp: trim_content_def)

lemma trim_content_not_str:
  "trim_content r = Inr r' \<Longrightarrow> \<forall>s. get r ''content'' \<noteq> Some (PStr s) \<Longrightarrow> r' = r"
  by (auto simp: trim_content_def Let_def split: option.splits pyval.splits if_splits)

lemma trim_content_cap:
  assumes "trim_content r = Inr r'" and "get r' ''content'' = Some (PStr s)"
  shows "length s \<le> WEB_CONTENT_TRIM_CHARS + 3"
proof (cases "\<exists>s0. get r ''content'' = Some (PStr s0)")
  case True
  then obtain s0 where s0: "get r ''content'' = Some (PStr s0)" by blast
  show ?thesis
  proof (cases "WEB_CONTENT_TRIM_CHARS < length s0")
    case True
    with s0 assms have "s = take WEB_CONTENT_TRIM_CHARS s0 @ ''...''"
      by (auto simp: trim_content_long get_setitem)
    then show ?thesis by simp
  next
    case False
    with s0 assms have "s = s0" by (simp add: trim_content_short)
    with False show ?thesis by simp
  qed
next
  case False
  with assms have "r' = r" by (blast dest: trim_content_not_str)
  with assms False show ?thesis by simp
qed

lemma trim_results_length:
  "trim_results rs = Inr items \<Longrightarrow> length items = length rs"
  by (induction rs arbitrary: items) (auto simp: ebind_eq_Inr)

lemma trim_results_nth:
  "trim_results rs = Inr items \<Longrightarrow> i < length rs \<Longrightarrow>
   \<exists>d. py_dict (rs ! i) = Inr d \<and> trim_content d = Inr (items ! i)"
proof (induction rs arbitrary: items i)
  case Nil
  then show ?case by simp
next
  case (Cons r rs)
  then show ?case by (cases i) (auto simp: ebind_eq_Inr)
qed

lemma trim_results_cap:
  "trim_results rs = Inr items \<Longrightarrow> r \<in> set items \<Longrightarrow> get r ''content'' = Some (PStr s) \<Longrightarrow>
   length s \<le> WEB_CONTENT_TRIM_CHARS + 3"
proof (induction rs arbitrary: items)
  case Nil
  then show ?case by simp
next
  case (Cons a rs)
  then show ?case by (auto simp: ebind_eq_Inr dest: trim_content_cap)
qed

lemma web_evidence_first_ok:
  "search 1 = Inr res \<Longrightarrow>
   web_evidence_for_claim search =
     ebind (py_iter (case res of PDict d \<Rightarrow> get_default d ''results'' (PList []) | _ \<Rightarrow> PList []))
       trim_results"
  by (simp add: web_evidence_for_claim_def with_retries_def retry_loop_first_ok)

lemma web_evidence_Inr:
  "web_evidence_for_claim search = Inr items \<Longrightarrow> \<exists>rs. trim_results rs = Inr items"
  by (auto simp: web_evidence_for_claim_def ebind_eq_Inr)

text \<open>
  C8, as amended. Every string content that \<^verbatim>\<open>web_evidence_for_claim\<close> returns has at most
  \<open>WEB_CONTENT_TRIM_CHARS + 3\<close> characters. When the first search call answers with a
  dictionary whose results are a list, there is one returned item per result, in order;
  a result whose content has at most \<open>WEB_CONTENT_TRIM_CHARS\<close> characters is returned
  unchanged, and a longer content is replaced by its first \<open>WEB_CONTENT_TRIM_CHARS\<close>
  characters followed by three dots.
\<close>

theorem web_evidence_content_trimmed:
  "(web_evidence_for_claim search = Inr items \<longrightarrow>
      (\<forall>r \<in> set items. \<forall>s. get r ''content'' = Some (PStr s) \<longrightarrow>
         length s \<le> WEB_CONTENT_TRIM_CHARS + 3))
   \<and> (search 1 = Inr (PDict resp) \<and> get resp ''results'' = Some (PList rs) \<and>
       web_evidence_for_claim search = Inr items \<longrightarrow>
      length items = length rs \<and>
      (\<forall>i < length rs. \<forall>d s. rs ! i = PDict d \<and> get d ''content'' = Some (PStr s) \<longrightarrow>
         (if length s \<le> WEB_CONTENT_TRIM_CHARS then items ! i = d
          else items ! i =
                 setitem ''content'' (PStr (take WEB_CONTENT_TRIM_CHARS s @ ''...'')) d)))"
proof (rule conjI; rule impI)
  assume "web_evidence_for_claim search = Inr items"
  then obtain rs0 where "trim_results rs0 = Inr items" by (blast dest: web_evidence_Inr)
  then show "\<forall>r \<in> set items. \<forall>s. get r ''content'' = Some (PStr s) \<longrightarrow>
         length s \<le> WEB_CONTENT_TRIM_CHARS + 3"
    by (blast dest: trim_results_cap)
next
  assume a: "search 1 = Inr (PDict resp) \<and> get resp ''results'' = Some (PList rs) \<and>
       web_evidence_for_claim search = Inr items"
  then have s1: "search 1 = Inr (PDict resp)" by blast
  from a have t: "trim_results rs = Inr items"
    by (auto simp: web_evidence_first_ok [of search "PDict resp", OF s1] get_default_def get_def)
  show "length items = length rs \<and>
      (\<forall>i < length rs. \<forall>d s. rs ! i = PDict d \<and> get d ''content'' = Some (PStr s) \<longrightarrow>
         (if length s \<le> WEB_CONTENT_TRIM_CHARS then items ! i = d
          else items ! i =
                 setitem ''content'' (PStr (take WEB_CONTENT_TRIM_CHARS s @ ''...'')) d))"
  proof (rule conjI; (intro allI impI)?)
    show "length items = length rs" using t by (rule trim_results_length)
  next
    fix i d s
    assume i: "i < length rs" and d: "rs ! i = PDict d \<and> get d ''content'' = Some (PStr s)"
    from trim_results_nth [OF t i] d have tc: "trim_content d = Inr (items ! i)" by auto
    show "if length s \<le> WEB_CONTENT_TRIM_CHARS then items ! i = d
          else items ! i =
                 setitem ''content'' (PStr (take WEB_CONTENT_TRIM_CHARS s @ ''...'')) d"
      using tc d by (auto simp: trim_content_long trim_content_short not_le)
  qed
qed

theorem web_evidence_content_trimmed_witness:
  "web_evidence_for_claim (\<lambda>n. Inr (PDict [(''results'', PList [PDict [(''content'', PStr ''abc'')]])]))
     = Inr [[(''content'', PStr ''abc'')]]
   \<and> length ''abc'' \<le> WEB_CONTENT_TRIM_CHARS + 3"
  using web_evidence_content_trimmed
    [of "\<lambda>n. Inr (PDict [(''results'', PList [PDict [(''content'', PStr ''abc'')]])])"
        "[[(''content'', PStr ''abc'')]]" "[(''results'', PList [PDict [(''content'', PStr ''abc'')]])]"
        "[PDict [(''content'', PStr ''abc'')]]"]
  by (simp add: web_evidence_first_ok get_default_def get_def trim_content_def
      WEB_CONTENT_TRIM_CHARS_def)

text \<open>
  C8, as stated, fails: a content of 3501 characters is returned with 3503 characters,
  above the cap of 3500.
\<close>

theorem web_evidence_content_over_cap:
  "web_evidence_for_claim
     (\<lambda>n. Inr (PDict [(''results'', PList [PDict [(''content'', PStr (replicate 3501 (CHR ''a'')))]])]))
     = Inr [[(''content'', PStr (replicate 3500 (CHR ''a'') @ ''...''))]]
   \<and> length (replicate 3500 (CHR ''a'') @ ''...'') = 3503
   \<and> \<not> (3503 \<le> WEB_CONTENT_TRIM_CHARS)"
  by (simp add: web_evidence_first_ok get_default_def get_def trim_content_def
      WEB_CONTENT_TRIM_CHARS_def)

section \<open>JSON extraction\<close>

lemma find_char_notin: "c \<notin> set s \<Longrightarrow> find_char c s = - 1"
  by (induction s) (auto simp: Let_def)

lemma find_char_nth:
  "find_char c s \<noteq> - 1 \<Longrightarrow>
   0 \<le> find_char c s \<and> nat (find_char c s) < length s \<and> s ! nat (find_char c s) = c"
proof (induction s)
  case Nil
  then show ?case by simp
next
  case (Cons x s)
  show ?case
  proof (cases "x = c")
    case True
    then show ?thesis by simp
  next
    case False
    with Cons.prems have ne: "find_char c s \<noteq> - 1" by (auto simp: Let_def split: if_splits)
    from Cons.IH [OF ne] False ne show ?thesis by (simp add: Let_def nat_add_distrib)
  qed
qed

lemma find_char_le:
  "i < length s \<Longrightarrow> s ! i = c \<Longrightarrow> 0 \<le> find_char c s \<and> find_char c s \<le> int i"
proof (induction s arbitrary: i)
  case Nil
  then show ?case by simp
next
  case (Cons x s)
  show ?case
  proof (cases "x = c")
    case True
    then show ?thesis by simp
  next
    case False
    with Cons.prems obtain k where k: "i = Suc k" by (cases i) auto
    with Cons.prems have "k < length s" "s ! k = c" by simp_all
    from Cons.IH [OF this] False k show ?thesis by (simp add: Let_def)
  qed
qed

lemma find_char_append:
  "c \<notin> set pre \<Longrightarrow> find_char c (pre @ c # rest) = int (length pre)"
  by (induction pre) (auto simp: Let_def)

lemma rfind_char_append:
  "c \<notin> set post \<Longrightarrow> rfind_char c (pre @ c # post) = int (length pre)"
proof -
  assume "c \<notin> set post"
  then have "find_char c (rev post @ c # rev pre) = int (length post)"
    using find_char_append [of c "rev post" "rev pre"] by simp
  then show ?thesis by (simp add: rfind_char_def Let_def)
qed

lemma rfind_char_nth:
  assumes "rfind_char c s \<noteq> - 1"
  shows "0 \<le> rfind_char c s \<and> nat (rfind_char c s) < length s \<and> s ! nat (rfind_char c s) = c"
proof -
  from assms have ne: "find_char c (rev s) \<noteq> - 1"
    by (auto simp: rfind_char_def Let_def)
  from find_char_nth [OF ne] obtain k where
    k: "find_char c (rev s) = int k" and kl: "k < length s" and kn: "rev s ! k = c"
    by (metis length_rev nat_0_le)
  have r: "rfind_char c s = int (length s) - 1 - int k"
    using ne k by (simp add: rfind_char_def Let_def)
  then have n: "nat (rfind_char c s) = length s - Suc k" using kl by linarith
  have "s ! (length s - Suc k) = c" using kn kl by (simp add: rev_nth)
  with n r kl show ?thesis by auto
qed

lemma rfind_char_ge:
  assumes "j < length s" and "s ! j = c"
  shows "int j \<le> rfind_char c s"
proof -
  have "length s - Suc j < length (rev s)" using assms by simp
  moreover have "rev s ! (length s - Suc j) = c" using assms by (simp add: rev_nth)
  ultimately have "0 \<le> find_char c (rev s) \<and> find_char c (rev s) \<le> int (length s - Suc j)"
    by (rule find_char_le)
  then show ?thesis using assms by (simp add: rfind_char_def Let_def)
qed

lemma json_span_None_iff:
  "json_span text = None \<longleftrightarrow>
     \<not> (\<exists>i j. i < j \<and> j < length text \<and> text ! i = CHR ''{'' \<and> text ! j = CHR ''}'')"
proof
  assume n: "json_span text = None"
  show "\<not> (\<exists>i j. i < j \<and> j < length text \<and> text ! i = CHR ''{'' \<and> text ! j = CHR ''}'')"
  proof
    assume "\<exists>i j. i < j \<and> j < length text \<and> text ! i = CHR ''{'' \<and> text ! j = CHR ''}''"
    then obtain i j where ij: "i < j" "j < length text" "text ! i = CHR ''{''" "text ! j = CHR ''}''"
      by blast
    then have "i < length text" by simp
    from find_char_le [OF this ij(3)] have a: "0 \<le> find_char (CHR ''{'') text"
      "find_char (CHR ''{'') text \<le> int i" by simp_all
    from rfind_char_ge [OF ij(2) ij(4)] have b: "int j \<le> rfind_char (CHR ''}'') text" .
    from a b ij(1) have "json_span text \<noteq> None" by (simp add: json_span_def Let_def)
    with n show False by simp
  qed
next
  assume h: "\<not> (\<exists>i j. i < j \<and> j < length text \<and> text ! i = CHR ''{'' \<and> text ! j = CHR ''}'')"
  show "json_span text = None"
  proof (rule ccontr)
    assume "json_span text \<noteq> None"
    then have s: "find_char (CHR ''{'') text \<noteq> - 1" and e: "rfind_char (CHR ''}'') text \<noteq> - 1"
      and lt: "find_char (CHR ''{'') text < rfind_char (CHR ''}'') text"
      by (auto simp: json_span_def Let_def split: if_splits)
    from find_char_nth [OF s] rfind_char_nth [OF e] lt
    have "nat (find_char (CHR ''{'') text) < nat (rfind_char (CHR ''}'') text)
      \<and> nat (rfind_char (CHR ''}'') text) < length text
      \<and> text ! nat (find_char (CHR ''{'') text) = CHR ''{''
      \<and> text ! nat (rfind_char (CHR ''}'') text) = CHR ''}''"
      by simp
    with h show False by blast
  qed
qed

lemma json_span_object:
  assumes "CHR ''{'' \<notin> set pre" and "CHR ''}'' \<notin> set post"
  shows "json_span (pre @ (CHR ''{'' # mid @ [CHR ''}'']) @ post) = Some (CHR ''{'' # mid @ [CHR ''}''])"
proof -
  let ?t = "pre @ (CHR ''{'' # mid @ [CHR ''}'']) @ post"
  have s: "find_char (CHR ''{'') ?t = int (length pre)"
    using find_char_append [OF assms(1), of "mid @ [CHR ''}''] @ post"] by simp
  have "rfind_char (CHR ''}'') ((pre @ CHR ''{'' # mid) @ CHR ''}'' # post) = int (length (pre @ CHR ''{'' # mid))"
    by (rule rfind_char_append [OF assms(2)])
  then have e: "rfind_char (CHR ''}'') ?t = int (length pre) + 1 + int (length mid)" by simp
  have "slice ?t (int (length pre)) (int (length pre) + 1 + int (length mid) + 1)
          = take (length mid + 2) (CHR ''{'' # mid @ [CHR ''}''] @ post)"
    by (simp add: slice_def nat_add_distrib)
  also have "\<dots> = CHR ''{'' # mid @ [CHR ''}'']" by simp
  finally show ?thesis using s e by (simp add: json_span_def Let_def)
qed

lemma contains_iff: "contains sub s \<longleftrightarrow> (\<exists>p q. s = p @ sub @ q)"
proof (induction s)
  case Nil
  then show ?case by auto
next
  case (Cons c s)
  show ?case
  proof
    assume "contains sub (c # s)"
    then consider "take (length sub) (c # s) = sub" | "contains sub s" by auto
    then show "\<exists>p q. c # s = p @ sub @ q"
    proof cases
      case 1
      then have "c # s = [] @ sub @ drop (length sub) (c # s)"
        by (metis append_Nil append_take_drop_id)
      then show ?thesis by blast
    next
      case 2
      with Cons.IH obtain p q where "s = p @ sub @ q" by blast
      then have "c # s = (c # p) @ sub @ q" by simp
      then show ?thesis by blast
    qed
  next
    assume "\<exists>p q. c # s = p @ sub @ q"
    then obtain p q where pq: "c # s = p @ sub @ q" by blast
    show "contains sub (c # s)"
    proof (cases p)
      case Nil
      with pq have "take (length sub) (c # s) = sub" by simp
      then show ?thesis by simp
    next
      case (Cons a p')
      with pq have "s = p' @ sub @ q" by simp
      with Cons.IH have "contains sub s" by blast
      then show ?thesis by simp
    qed
  qed
qed

lemma strip_infix: "\<exists>a b. s = a @ strip s @ b"
proof -
  let ?l = "dropWhile is_space s"
  have 1: "s = takeWhile is_space s @ ?l" by simp
  have "rev ?l = takeWhile is_space (rev ?l) @ dropWhile is_space (rev ?l)" by simp
  then have "?l = rev (dropWhile is_space (rev ?l)) @ rev (takeWhile is_space (rev ?l))"
    by (metis rev_append rev_rev_ident)
  then have "?l = strip s @ rev (takeWhile is_space (rev ?l))" by (simp add: strip_def)
  with 1 have "s = takeWhile is_space s @ strip s @ rev (takeWhile is_space (rev ?l))" by simp
  then show ?thesis by blast
qed

lemma contains_strip: "contains sub (strip s) \<Longrightarrow> contains sub s"
proof -
  assume "contains sub (strip s)"
  then obtain p q where pq: "strip s = p @ sub @ q" by (auto simp: contains_iff)
  obtain a b where "s = a @ strip s @ b" using strip_infix by blast
  with pq have "s = (a @ p) @ sub @ (q @ b)" by simp
  then show ?thesis unfolding contains_iff by blast
qed

lemma dropWhile_keep:
  "m \<noteq> [] \<Longrightarrow> \<not> P (hd m) \<Longrightarrow> dropWhile P (a @ m @ b) = dropWhile P a @ m @ b"
  by (cases m) (auto simp: dropWhile_append)

lemma strip_around:
  assumes "m \<noteq> []" and "\<not> is_space (hd m)" and "\<not> is_space (last m)"
  shows "strip (a @ m @ b) = dropWhile is_space a @ m @ rev (dropWhile is_space (rev b))"
proof -
  have 1: "dropWhile is_space (a @ m @ b) = dropWhile is_space a @ m @ b"
    using assms by (simp add: dropWhile_keep)
  have "rev (dropWhile is_space a @ m @ b) = rev b @ rev m @ rev (dropWhile is_space a)"
    by simp
  moreover have "dropWhile is_space (rev b @ rev m @ rev (dropWhile is_space a))
      = dropWhile is_space (rev b) @ rev m @ rev (dropWhile is_space a)"
    using assms by (intro dropWhile_keep) (simp_all add: hd_rev)
  ultimately show ?thesis using 1 by (simp add: strip_def)
qed

lemma fence_split_first:
  "CHR 0x60 \<notin> set pre \<Longrightarrow>
   py_split fence cur (pre @ fence @ rest) = (cur @ pre) # py_split fence [] rest"
proof (induction pre arbitrary: cur)
  case Nil
  then show ?case by (simp add: fence_def)
next
  case (Cons c pre)
  then have "c \<noteq> CHR 0x60" by auto
  then have "take (length fence) (c # pre @ fence @ rest) \<noteq> fence"
    by (auto simp: fence_def)
  with Cons show ?case by simp
qed

lemma py_split_nonempty: "py_split sep cur s \<noteq> []"
  by (induction sep cur s rule: py_split.induct) auto

lemma unfence_fenced:
  assumes "CHR 0x60 \<notin> set pre" and "CHR 0x60 \<notin> set body"
  shows "unfence (pre @ fence @ body @ fence @ post) = strip (replace_first ''json'' [] body)"
proof -
  let ?t = "pre @ fence @ body @ fence @ post"
  have c: "contains fence ?t" unfolding contains_iff by blast
  have "py_split fence [] ?t = pre # py_split fence [] (body @ fence @ post)"
    using fence_split_first [OF assms(1), of "[]"] by simp
  also have "\<dots> = pre # body # py_split fence [] post"
    using fence_split_first [OF assms(2), of "[]"] by simp
  finally have p: "py_split fence [] ?t = pre # body # py_split fence [] post" .
  show ?thesis using c p by (simp add: unfence_def Let_def)
qed

lemma not_space_fence: "\<not> is_space (CHR 0x60)"
  by (simp add: is_space_def)

lemma not_space_brace_open: "\<not> is_space (CHR ''{'')"
  by (simp add: is_space_def)

lemma not_space_brace_close: "\<not> is_space (CHR ''}'')"
  by (simp add: is_space_def)

lemma extract_json_unfenced:
  assumes "\<not> contains fence (pre @ (CHR ''{'' # mid @ [CHR ''}'']) @ post)"
    and "CHR ''{'' \<notin> set pre" and "CHR ''}'' \<notin> set post"
  shows "extract_json loads (Some (pre @ (CHR ''{'' # mid @ [CHR ''}'']) @ post))
           = loads (CHR ''{'' # mid @ [CHR ''}''])"
proof -
  let ?obj = "CHR ''{'' # mid @ [CHR ''}'']"
  let ?pre = "dropWhile is_space pre"
  let ?post = "rev (dropWhile is_space (rev post))"
  have st: "strip (pre @ ?obj @ post) = ?pre @ ?obj @ ?post"
    by (rule strip_around) (simp_all add: not_space_brace_open not_space_brace_close)
  have nf: "\<not> contains fence (strip (pre @ ?obj @ post))"
    using assms(1) contains_strip by blast
  have a: "CHR ''{'' \<notin> set ?pre" using assms(2) by (auto dest: set_dropWhileD)
  have b: "CHR ''}'' \<notin> set ?post" using assms(3) by (auto dest: set_dropWhileD)
  have "json_span (?pre @ ?obj @ ?post) = Some ?obj" by (rule json_span_object [OF a b])
  with st nf show ?thesis by (simp add: extract_json_def unfence_def)
qed

lemma extract_json_fenced:
  assumes "CHR 0x60 \<notin> set pre" and "CHR 0x60 \<notin> set body"
    and "strip (replace_first ''json'' [] body) = CHR ''{'' # mid @ [CHR ''}'']"
  shows "extract_json loads (Some (pre @ fence @ body @ fence @ post))
           = loads (CHR ''{'' # mid @ [CHR ''}''])"
proof -
  let ?obj = "CHR ''{'' # mid @ [CHR ''}'']"
  let ?pre = "dropWhile is_space pre"
  let ?post = "rev (dropWhile is_space (rev post))"
  have "strip (pre @ (fence @ body @ fence) @ post) = ?pre @ (fence @ body @ fence) @ ?post"
    by (rule strip_around) (simp_all add: fence_def not_space_fence)
  then have st: "strip (pre @ fence @ body @ fence @ post) = ?pre @ fence @ body @ fence @ ?post"
    by simp
  have a: "CHR 0x60 \<notin> set ?pre" using assms(1) by (auto dest: set_dropWhileD)
  have u: "unfence (?pre @ fence @ body @ fence @ ?post) = ?obj"
    using unfence_fenced [OF a assms(2)] assms(3) by simp
  have "json_span ([] @ ?obj @ []) = Some ?obj" by (rule json_span_object) simp_all
  then have "json_span ?obj = Some ?obj" by simp
  with st u show ?thesis by (simp add: extract_json_def)
qed

text \<open>
  C4 (shared JSON extraction), evaluated where it fails. The model answers with a JSON
  object wrapped in prose, \<^verbatim>\<open>Here it is: {"a": 1} Done.\<close>; the specification expects the
  parsed object. The extraction of lines 302 to 314 would hand exactly the embedded object
  to \<^verbatim>\<open>json.loads\<close>, but it is never reached: the first statement of \<^verbatim>\<open>gemini_json\<close> calls the
  undefined \<^verbatim>\<open>debug\<close>, and the function raises \<^verbatim>\<open>NameError\<close> before the model is called. For
  the same reason an answer without any brace, \<^verbatim>\<open>I cannot answer.\<close>, ends in \<^verbatim>\<open>NameError\<close>
  and not in the \<^verbatim>\<open>ValueError\<close> of line 314.
\<close>

theorem gemini_json_raises_NameError:
  \<open>gemini_json loads (\<lambda>p. Inr (Some ''Here it is: {"a": 1} Done.'')) prompt
     = Inl (NameError ''name debug is not defined'')
   \<and> extract_json loads (Some ''Here it is: {"a": 1} Done.'') = loads ''{"a": 1}''
   \<and> gemini_json loads (\<lambda>p. Inr (Some ''I cannot answer.'')) prompt
     = Inl (NameError ''name debug is not defined'')
   \<and> extract_json loads (Some ''I cannot answer.'')
     = Inl (ValueError (''Gemini did not return valid JSON.'' @ [CHR 0x0A] @ ''Raw:'' @
                        [CHR 0x0A] @ ''I cannot answer.''))\<close>
proof -
  have s1: \<open>json_span (unfence (strip ''Here it is: {"a": 1} Done.'')) = Some ''{"a": 1}''\<close>
    by code_simp
  have u2: "unfence (strip ''I cannot answer.'') = ''I cannot answer.''"
    by code_simp
  have s2: "json_span ''I cannot answer.'' = None"
    by code_simp
  show ?thesis
    by (simp add: gemini_json_def debug_def extract_json_def s1 u2 s2)
qed

section \<open>Fact checking\<close>

lemma factcheck_claims_collect:
  "factcheck_claims web one i cs out =
     ebind (collect_steps web one i cs) (\<lambda>vs. Inr (out @ vs))"
proof (induction cs arbitrary: i out)
  case Nil
  then show ?case by simp
next
  case (Cons c cs)
  show ?case
  proof (cases "get_stripped c ''claim'' []")
    case (Inl e)
    then show ?thesis by (simp add: claim_step_def)
  next
    case claim: (Inr claim)
    show ?thesis
    proof (cases "get_stripped c ''claim_source'' ''video''")
      case (Inl e)
      with claim show ?thesis by (simp add: claim_step_def)
    next
      case src: (Inr src)
      show ?thesis
      proof (cases "claim = []")
        case True
        with claim src show ?thesis
          by (cases "collect_steps web one (Suc i) cs") (simp_all add: claim_step_def Cons.IH)
      next
        case ne: False
        show ?thesis
        proof (cases "web i claim")
          case (Inl e)
          with claim src ne show ?thesis by (simp add: claim_step_def)
        next
          case w: (Inr sources)
          show ?thesis
          proof (cases "sources = []")
            case True
            with claim src ne w show ?thesis
              by (cases "collect_steps web one (Suc i) cs") (simp_all add: claim_step_def Cons.IH)
          next
            case False
            with claim src ne w show ?thesis
              by (cases "one i claim src sources"; cases "collect_steps web one (Suc i) cs")
                 (simp_all add: claim_step_def Cons.IH)
          qed
        qed
      qed
    qed
  qed
qed

lemma claim_step_None:
  "claim_step web one i c = Inr None \<Longrightarrow> \<not> claim_nonempty c"
  by (auto simp: claim_step_def claim_nonempty_def ebind_eq_Inr split: if_splits)

lemma claim_step_Some:
  "claim_step web one i c = Inr (Some v) \<Longrightarrow> claim_nonempty c"
  by (auto simp: claim_step_def claim_nonempty_def ebind_eq_Inr split: if_splits)

lemma collect_steps_length:
  "collect_steps web one i cs = Inr vs \<Longrightarrow> length vs = length (filter claim_nonempty cs)"
proof (induction cs arbitrary: i vs)
  case Nil
  then show ?case by simp
next
  case (Cons c cs)
  from Cons.prems obtain v rest where
    v: "claim_step web one i c = Inr v" and
    rest: "collect_steps web one (Suc i) cs = Inr rest" and
    vs: "vs = (case v of None \<Rightarrow> rest | Some d \<Rightarrow> d # rest)"
    by (auto simp: ebind_eq_Inr)
  from Cons.IH [OF rest] have l: "length rest = length (filter claim_nonempty cs)" .
  show ?case
  proof (cases v)
    case None
    with v have "\<not> claim_nonempty c" by (simp add: claim_step_None)
    with None vs l show ?thesis by simp
  next
    case (Some d)
    with v have "claim_nonempty c" by (simp add: claim_step_Some)
    with Some vs l show ?thesis by simp
  qed
qed

lemma collect_steps_first_failure:
  "n < length cs \<Longrightarrow> (\<forall>j < n. \<exists>v. claim_step web one (i + j) (cs ! j) = Inr v) \<Longrightarrow>
   claim_step web one (i + n) (cs ! n) = Inl e \<Longrightarrow> collect_steps web one i cs = Inl e"
proof (induction n arbitrary: i cs)
  case 0
  then show ?case by (cases cs) simp_all
next
  case (Suc n)
  from Suc.prems(1) obtain c cs' where cs: "cs = c # cs'" by (cases cs) auto
  from Suc.prems(2) [rule_format, of 0] cs obtain v where v: "claim_step web one i c = Inr v"
    by auto
  have "collect_steps web one (Suc i) cs' = Inl e"
  proof (rule Suc.IH)
    show "n < length cs'" using Suc.prems(1) cs by simp
    show "\<forall>j<n. \<exists>v. claim_step web one (Suc i + j) (cs' ! j) = Inr v"
    proof (intro allI impI)
      fix j assume "j < n"
      then have "Suc j < Suc n" by simp
      from Suc.prems(2) [rule_format, OF this] cs
      show "\<exists>v. claim_step web one (Suc i + j) (cs' ! j) = Inr v" by simp
    qed
    show "claim_step web one (Suc i + n) (cs' ! n) = Inl e" using Suc.prems(3) cs by simp
  qed
  with v cs show ?case by simp
qed

lemma collect_steps_member:
  "collect_steps web one i cs = Inr vs \<Longrightarrow> n < length cs \<Longrightarrow>
   claim_step web one (i + n) (cs ! n) = Inr (Some d) \<Longrightarrow> d \<in> set vs"
proof (induction cs arbitrary: i vs n)
  case Nil
  then show ?case by simp
next
  case (Cons c cs)
  from Cons.prems(1) obtain v rest where
    v: "claim_step web one i c = Inr v" and
    rest: "collect_steps web one (Suc i) cs = Inr rest" and
    vs: "vs = (case v of None \<Rightarrow> rest | Some d \<Rightarrow> d # rest)"
    by (auto simp: ebind_eq_Inr)
  show ?case
  proof (cases n)
    case 0
    with Cons.prems(3) v vs show ?thesis by simp
  next
    case (Suc m)
    with Cons.prems have "m < length cs" "claim_step web one (Suc i + m) (cs ! m) = Inr (Some d)"
      by simp_all
    from Cons.IH [OF rest this] have "d \<in> set rest" .
    with vs show ?thesis by (cases v) simp_all
  qed
qed

lemma collect_steps_all_ok:
  "(\<forall>j < length cs. \<exists>v. claim_step web one (i + j) (cs ! j) = Inr v) \<Longrightarrow>
   \<exists>vs. collect_steps web one i cs = Inr vs"
proof (induction cs arbitrary: i)
  case Nil
  then show ?case by simp
next
  case (Cons c cs)
  from Cons.prems [rule_format, of 0] obtain v where v: "claim_step web one i c = Inr v" by auto
  have "\<forall>j<length cs. \<exists>v. claim_step web one (Suc i + j) (cs ! j) = Inr v"
  proof (intro allI impI)
    fix j assume "j < length cs"
    then have "Suc j < length (c # cs)" by simp
    from Cons.prems [rule_format, OF this]
    show "\<exists>v. claim_step web one (Suc i + j) (cs ! j) = Inr v" by simp
  qed
  from Cons.IH [OF this] obtain rest where "collect_steps web one (Suc i) cs = Inr rest" by blast
  with v show ?case by simp
qed

lemma gemini_factcheck_with_collect:
  "claims_of structured = Inr cs \<Longrightarrow>
   gemini_factcheck_with web one structured = collect_steps web one 1 cs"
  by (cases "collect_steps web one 1 cs")
     (simp_all add: gemini_factcheck_with_def factcheck_claims_collect)

text \<open>
  C3, as amended. \<^verbatim>\<open>gemini_factcheck\<close> is \<open>gemini_factcheck_with\<close> applied to
  \<^verbatim>\<open>web_evidence_for_claim\<close> and \<^verbatim>\<open>gemini_factcheck_one_claim\<close>; the statement holds for any
  two collaborators. A failure while fact-checking one claim is not isolated: when the
  claims before it went through and the evidence retrieval or the reasoning call of a claim
  with non-empty text raises, the fact-check raises that same error and returns no verdict.
  When the fact-check returns, its list has as many verdicts as there are claims whose
  stripped text is non-empty, and for a claim whose web search gave no result it holds the
  fallback verdict: the claim and its source, verdict \<^verbatim>\<open>unclear\<close>, confidence 0, an empty
  correction, the note \<^verbatim>\<open>No web sources found for this claim.\<close> and no citations. It returns
  whenever no step raises.
\<close>

theorem gemini_factcheck_failure_aborts:
  "claims_of structured = Inr cs \<longrightarrow>
     (n < length cs \<and> (\<forall>j < n. \<exists>v. claim_step web one (Suc j) (cs ! j) = Inr v) \<and>
      get_stripped (cs ! n) ''claim'' [] = Inr c \<and> c \<noteq> [] \<and>
      get_stripped (cs ! n) ''claim_source'' ''video'' = Inr src \<and>
      (web (Suc n) c = Inl e \<or>
       (web (Suc n) c = Inr sources \<and> sources \<noteq> [] \<and> one (Suc n) c src sources = Inl e))
      \<longrightarrow> gemini_factcheck_with web one structured = Inl e)
   \<and> (gemini_factcheck_with web one structured = Inr out \<longrightarrow>
        length out = length (filter claim_nonempty cs) \<and>
        (\<forall>m < length cs. \<forall>c' src'.
           get_stripped (cs ! m) ''claim'' [] = Inr c' \<and> c' \<noteq> [] \<and>
           get_stripped (cs ! m) ''claim_source'' ''video'' = Inr src' \<and>
           web (Suc m) c' = Inr [] \<longrightarrow>
           [(''claim'', PStr c'), (''claim_source'', PStr src'), (''verdict'', PStr ''unclear''),
             (''confidence'', PInt 0), (''correct_information'', PStr []),
             (''explanation'', PStr ''No web sources found for this claim.''),
             (''citations'', PList [])] \<in> set out))
   \<and> ((\<forall>j < length cs. \<exists>v. claim_step web one (Suc j) (cs ! j) = Inr v) \<longrightarrow>
        (\<exists>out'. gemini_factcheck_with web one structured = Inr out'))"
proof (rule impI)
  assume cs: "claims_of structured = Inr cs"
  note eq = gemini_factcheck_with_collect [OF cs, of web one]
  have a: "gemini_factcheck_with web one structured = Inl e"
    if h: "n < length cs \<and> (\<forall>j < n. \<exists>v. claim_step web one (Suc j) (cs ! j) = Inr v) \<and>
      get_stripped (cs ! n) ''claim'' [] = Inr c \<and> c \<noteq> [] \<and>
      get_stripped (cs ! n) ''claim_source'' ''video'' = Inr src \<and>
      (web (Suc n) c = Inl e \<or>
       (web (Suc n) c = Inr sources \<and> sources \<noteq> [] \<and> one (Suc n) c src sources = Inl e))"
  proof -
    from h have step: "claim_step web one (1 + n) (cs ! n) = Inl e"
      by (auto simp: claim_step_def)
    from h have before: "\<forall>j < n. \<exists>v. claim_step web one (1 + j) (cs ! j) = Inr v" by simp
    from h have "n < length cs" by simp
    from collect_steps_first_failure [OF this before step] eq show ?thesis by simp
  qed
  have b: "length out = length (filter claim_nonempty cs) \<and>
        (\<forall>m < length cs. \<forall>c' src'.
           get_stripped (cs ! m) ''claim'' [] = Inr c' \<and> c' \<noteq> [] \<and>
           get_stripped (cs ! m) ''claim_source'' ''video'' = Inr src' \<and>
           web (Suc m) c' = Inr [] \<longrightarrow>
           [(''claim'', PStr c'), (''claim_source'', PStr src'), (''verdict'', PStr ''unclear''),
             (''confidence'', PInt 0), (''correct_information'', PStr []),
             (''explanation'', PStr ''No web sources found for this claim.''),
             (''citations'', PList [])] \<in> set out)"
    if r: "gemini_factcheck_with web one structured = Inr out"
  proof (rule conjI; (intro allI impI)?)
    from r eq have col: "collect_steps web one 1 cs = Inr out" by simp
    then show "length out = length (filter claim_nonempty cs)" by (rule collect_steps_length)
    fix m c' src'
    assume m: "m < length cs"
      and h: "get_stripped (cs ! m) ''claim'' [] = Inr c' \<and> c' \<noteq> [] \<and>
           get_stripped (cs ! m) ''claim_source'' ''video'' = Inr src' \<and>
           web (Suc m) c' = Inr []"
    then have "claim_step web one (1 + m) (cs ! m) = Inr (Some
           [(''claim'', PStr c'), (''claim_source'', PStr src'), (''verdict'', PStr ''unclear''),
             (''confidence'', PInt 0), (''correct_information'', PStr []),
             (''explanation'', PStr ''No web sources found for this claim.''),
             (''citations'', PList [])])"
      by (simp add: claim_step_def no_sources_verdict_def)
    from collect_steps_member [OF col m this]
    show "[(''claim'', PStr c'), (''claim_source'', PStr src'), (''verdict'', PStr ''unclear''),
             (''confidence'', PInt 0), (''correct_information'', PStr []),
             (''explanation'', PStr ''No web sources found for this claim.''),
             (''citations'', PList [])] \<in> set out" .
  qed
  have c: "\<exists>out'. gemini_factcheck_with web one structured = Inr out'"
    if h: "\<forall>j < length cs. \<exists>v. claim_step web one (Suc j) (cs ! j) = Inr v"
  proof -
    from h have "\<forall>j < length cs. \<exists>v. claim_step web one (1 + j) (cs ! j) = Inr v" by simp
    from collect_steps_all_ok [OF this] eq show ?thesis by simp
  qed
  from a b c show "(n < length cs \<and> (\<forall>j < n. \<exists>v. claim_step web one (Suc j) (cs ! j) = Inr v) \<and>
      get_stripped (cs ! n) ''claim'' [] = Inr c \<and> c \<noteq> [] \<and>
      get_stripped (cs ! n) ''claim_source'' ''video'' = Inr src \<and>
      (web (Suc n) c = Inl e \<or>
       (web (Suc n) c = Inr sources \<and> sources \<noteq> [] \<and> one (Suc n) c src sources = Inl e))
      \<longrightarrow> gemini_factcheck_with web one structured = Inl e)
   \<and> (gemini_factcheck_with web one structured = Inr out \<longrightarrow>
        length out = length (filter claim_nonempty cs) \<and>
        (\<forall>m < length cs. \<forall>c' src'.
           get_stripped (cs ! m) ''claim'' [] = Inr c' \<and> c' \<noteq> [] \<and>
           get_stripped (cs ! m) ''claim_source'' ''video'' = Inr src' \<and>
           web (Suc m) c' = Inr [] \<longrightarrow>
           [(''claim'', PStr c'), (''claim_source'', PStr src'), (''verdict'', PStr ''unclear''),
             (''confidence'', PInt 0), (''correct_information'', PStr []),
             (''explanation'', PStr ''No web sources found for this claim.''),
             (''citations'', PList [])] \<in> set out))
   \<and> ((\<forall>j < length cs. \<exists>v. claim_step web one (Suc j) (cs ! j) = Inr v) \<longrightarrow>
        (\<exists>out'. gemini_factcheck_with web one structured = Inr out'))"
    by blast
qed

lemma strip_A: "strip ''A'' = ''A''"
  by code_simp

lemma strip_B: "strip ''B'' = ''B''"
  by code_simp

lemma strip_video: "strip ''video'' = ''video''"
  by code_simp

text \<open>
  Two claims, \<^verbatim>\<open>A\<close> and \<^verbatim>\<open>B\<close>. When the search for \<^verbatim>\<open>A\<close> finds nothing and the search for \<^verbatim>\<open>B\<close>
  fails once, \<^verbatim>\<open>web_evidence_for_claim\<close> raises (the \<^verbatim>\<open>NameError\<close> of the retry helper) and so
  does \<^verbatim>\<open>gemini_factcheck\<close>: the fallback verdict of \<^verbatim>\<open>A\<close> is lost too. When both searches find
  nothing, the two fallback verdicts are returned.
\<close>

theorem gemini_factcheck_failure_aborts_witness:
  "gemini_factcheck (\<lambda>s. Inr [])
     (\<lambda>i claim n. if i = 1 then Inr (PDict [(''results'', PList [])])
                   else Inl (ServiceError ''connection reset''))
     (\<lambda>i p. Inr None)
     [(''claims'', PList [PDict [(''claim'', PStr ''A'')], PDict [(''claim'', PStr ''B'')]])]
     = Inl (NameError ''name debug is not defined'')
   \<and> gemini_factcheck (\<lambda>s. Inr [])
     (\<lambda>i claim n. Inr (PDict [(''results'', PList [])]))
     (\<lambda>i p. Inr None)
     [(''claims'', PList [PDict [(''claim'', PStr ''A'')], PDict [(''claim'', PStr ''B'')]])]
     = Inr [[(''claim'', PStr ''A''), (''claim_source'', PStr ''video''), (''verdict'', PStr ''unclear''),
             (''confidence'', PInt 0), (''correct_information'', PStr []),
             (''explanation'', PStr ''No web sources found for this claim.''),
             (''citations'', PList [])],
            [(''claim'', PStr ''B''), (''claim_source'', PStr ''video''), (''verdict'', PStr ''unclear''),
             (''confidence'', PInt 0), (''correct_information'', PStr []),
             (''explanation'', PStr ''No web sources found for this claim.''),
             (''citations'', PList [])]]
   \<and> length [[(''claim'', PStr ''A''), (''claim_source'', PStr ''video''), (''verdict'', PStr ''unclear''),
             (''confidence'', PInt 0), (''correct_information'', PStr []),
             (''explanation'', PStr ''No web sources found for this claim.''),
             (''citations'', PList [])],
            [(''claim'', PStr ''B''), (''claim_source'', PStr ''video''), (''verdict'', PStr ''unclear''),
             (''confidence'', PInt 0), (''correct_information'', PStr []),
             (''explanation'', PStr ''No web sources found for this claim.''),
             (''citations'', PList [])]]
     = length (filter claim_nonempty [PDict [(''claim'', PStr ''A'')], PDict [(''claim'', PStr ''B'')]])"
proof -
  let ?S = "[(''claims'', PList [PDict [(''claim'', PStr ''A'')], PDict [(''claim'', PStr ''B'')]])]"
  let ?cs = "[PDict [(''claim'', PStr ''A'')], PDict [(''claim'', PStr ''B'')]]"
  let ?tav1 = "\<lambda>(i::nat) (claim::string) (n::nat).
                 if i = 1 then Inr (PDict [(''results'', PList [])])
                 else (Inl (ServiceError ''connection reset'') :: exn + pyval)"
  let ?tav2 = "\<lambda>(i::nat) (claim::string) (n::nat). Inr (PDict [(''results'', PList [])]) :: exn + pyval"
  let ?web1 = "\<lambda>i claim. web_evidence_for_claim (?tav1 i claim)"
  let ?web2 = "\<lambda>i claim. web_evidence_for_claim (?tav2 i claim)"
  let ?one = "\<lambda>i. gemini_factcheck_one_claim (\<lambda>s. Inr [])
                 ((\<lambda>(i::nat) (p :: string \<times> string \<times> dict list). Inr None) i)"
  let ?A = "[(''claim'', PStr ''A''), (''claim_source'', PStr ''video''), (''verdict'', PStr ''unclear''),
             (''confidence'', PInt 0), (''correct_information'', PStr []),
             (''explanation'', PStr ''No web sources found for this claim.''),
             (''citations'', PList [])]"
  let ?B = "[(''claim'', PStr ''B''), (''claim_source'', PStr ''video''), (''verdict'', PStr ''unclear''),
             (''confidence'', PInt 0), (''correct_information'', PStr []),
             (''explanation'', PStr ''No web sources found for this claim.''),
             (''citations'', PList [])]"
  have cs: "claims_of ?S = Inr ?cs"
    by (simp add: claims_of_def get_default_def)
  have gA: "get_stripped (PDict [(''claim'', PStr ''A'')]) ''claim'' [] = Inr ''A''"
    and gB: "get_stripped (PDict [(''claim'', PStr ''B'')]) ''claim'' [] = Inr ''B''"
    and sA: "get_stripped (PDict [(''claim'', PStr ''A'')]) ''claim_source'' ''video'' = Inr ''video''"
    and sB: "get_stripped (PDict [(''claim'', PStr ''B'')]) ''claim_source'' ''video'' = Inr ''video''"
    by (simp_all add: get_stripped_def get_def strip_A strip_B strip_video)
  have w1A: "?web1 1 ''A'' = Inr []"
    by (simp add: web_evidence_for_claim_def with_retries_def retry_loop_first_ok
        get_default_def)
  have w1B: "?web1 (Suc 1) ''B'' = Inl (NameError ''name debug is not defined'')"
    by (simp add: web_evidence_for_claim_def with_retries_def retry_loop_first_other)
  have w2: "?web2 i c = Inr []" for i c
    by (simp add: web_evidence_for_claim_def with_retries_def retry_loop_first_ok
        get_default_def)
  have eval2: "gemini_factcheck_with ?web2 ?one ?S = Inr [?A, ?B]"
    by (simp add: gemini_factcheck_with_def cs gA gB sA sB w2 no_sources_verdict_def)
  have step1: "claim_step ?web1 ?one (Suc 0) (PDict [(''claim'', PStr ''A'')]) = Inr (Some ?A)"
    using w1A by (simp add: claim_step_def gA sA no_sources_verdict_def)
  note t1 = gemini_factcheck_failure_aborts
    [where structured = ?S and cs = ?cs and web = ?web1 and one = ?one and n = 1
       and c = "''B''" and src = "''video''" and e = "NameError ''name debug is not defined''"]
  note t2 = gemini_factcheck_failure_aborts
    [where structured = ?S and cs = ?cs and web = ?web2 and one = ?one and out = "[?A, ?B]"]
  have r1: "gemini_factcheck_with ?web1 ?one ?S = Inl (NameError ''name debug is not defined'')"
    using t1 cs gB sB step1 w1B by simp
  have r2: "length [?A, ?B] = length (filter claim_nonempty ?cs)"
    using t2 cs eval2 by blast
  from r1 eval2 r2 show ?thesis unfolding gemini_factcheck_def by blast
qed

text \<open>
  C3, as stated, fails: with two claims, each of the following aborts the whole fact-check
  and no verdict is produced for either claim: a search call that raises \<^verbatim>\<open>TypeError\<close>
  (re-raised by the retry helper); a search call that fails transiently; a failing search
  for the second claim after the first claim's search found nothing; and an answer of the
  reasoning model that is not JSON, for a claim with one web source.
\<close>

theorem gemini_factcheck_aborts_on_failure:
  "gemini_factcheck (\<lambda>s. Inr [])
     (\<lambda>i claim n. Inl (TypeError ''search() got an unexpected keyword argument''))
     (\<lambda>i p. Inr (Some ''{}''))
     [(''claims'', PList [PDict [(''claim'', PStr ''A'')], PDict [(''claim'', PStr ''B'')]])]
     = Inl (TypeError ''search() got an unexpected keyword argument'')
   \<and> gemini_factcheck (\<lambda>s. Inr [])
     (\<lambda>i claim n. Inl (ServiceError ''connection reset''))
     (\<lambda>i p. Inr (Some ''{}''))
     [(''claims'', PList [PDict [(''claim'', PStr ''A'')], PDict [(''claim'', PStr ''B'')]])]
     = Inl (NameError ''name debug is not defined'')
   \<and> gemini_factcheck (\<lambda>s. Inr [])
     (\<lambda>i claim n. if i = 1 then Inr (PDict [(''results'', PList [])])
                   else Inl (ServiceError ''connection reset''))
     (\<lambda>i p. Inr (Some ''{}''))
     [(''claims'', PList [PDict [(''claim'', PStr ''A'')], PDict [(''claim'', PStr ''B'')]])]
     = Inl (NameError ''name debug is not defined'')
   \<and> gemini_factcheck (\<lambda>s. Inl (JSONDecodeError ''Expecting value''))
     (\<lambda>i claim n. Inr (PDict [(''results'', PList [PDict [(''content'', PStr ''text'')]])]))
     (\<lambda>i p. Inr (Some ''I am not sure.''))
     [(''claims'', PList [PDict [(''claim'', PStr ''A'')], PDict [(''claim'', PStr ''B'')]])]
     = Inl (NameError ''name debug is not defined'')"
  by (simp add: gemini_factcheck_def gemini_factcheck_with_def claims_of_def get_default_def
      get_stripped_def get_def strip_A strip_B strip_video web_evidence_for_claim_def
      with_retries_def retry_loop_first_ok retry_loop_first_TypeError retry_loop_first_other
      no_sources_verdict_def trim_content_def WEB_CONTENT_TRIM_CHARS_def
      gemini_factcheck_one_claim_def gemini_json_def debug_def)

text \<open>
  C5 (fact-check operation), evaluated where it fails: one claim with non-empty text whose
  web search returns one result. The specification expects a list with one verdict. The
  reasoning stage goes through \<^verbatim>\<open>gemini_json\<close>, whose first statement calls the undefined
  \<^verbatim>\<open>debug\<close>: the operation raises \<^verbatim>\<open>NameError\<close>, whatever the model would answer.
\<close>

theorem gemini_factcheck_one_sourced_claim:
  "gemini_factcheck loads
     (\<lambda>i claim n. Inr (PDict [(''results'',
        PList [PDict [(''url'', PStr ''https://example.org''), (''content'', PStr ''Opened in 1932.'')]])]))
     generate
     [(''claims'', PList [PDict [(''claim'', PStr ''The bridge opened in 1932'')]])]
   = Inl (NameError ''name debug is not defined'')"
  by (simp add: gemini_factcheck_def gemini_factcheck_with_def claims_of_def get_default_def
      get_stripped_def get_def strip_def is_space_def web_evidence_first_ok trim_content_def
      WEB_CONTENT_TRIM_CHARS_def gemini_factcheck_one_claim_def gemini_json_def debug_def)

section \<open>The AI-generation detector\<close>






section \<open>Rounding to double precision\<close>

lemma rhe_error: "\<bar>of_int (round_half_even y) - y\<bar> \<le> 1 / 2"
proof -
  have "of_int \<lfloor>y\<rfloor> \<le> y" and "y < of_int \<lfloor>y\<rfloor> + 1" by linarith+
  then show ?thesis by (auto simp: round_half_even_def Let_def)
qed

lemma rhe_of_int [simp]: "round_half_even (of_int n) = n"
  by (simp add: round_half_even_def)

lemma rhe_unique:
  assumes "\<bar>of_int n - y\<bar> < 1 / 2"
  shows "round_half_even y = n"
proof (cases "of_int n \<le> y")
  case True
  with assms have "\<lfloor>y\<rfloor> = n" by (intro floor_unique) auto
  with assms True show ?thesis by (auto simp: round_half_even_def Let_def)
next
  case False
  with assms have f: "\<lfloor>y\<rfloor> = n - 1" by (intro floor_unique) auto
  with assms False show ?thesis by (auto simp: round_half_even_def Let_def)
qed

lemma two_powi_pos [simp]: "0 < (2::rat) powi k"
  by simp

lemma ilog2_bounds:
  assumes "x \<noteq> 0"
  shows "2 powi ilog2 x \<le> \<bar>x\<bar> \<and> \<bar>x\<bar> < 2 powi (ilog2 x + 1)"
proof -
  obtain p q where pq: "quotient_of \<bar>x\<bar> = (p, q)" by (cases "quotient_of \<bar>x\<bar>")
  then have q: "0 < q" by (rule quotient_of_denom_pos)
  from pq have x: "\<bar>x\<bar> = of_int p / of_int q" by (rule quotient_of_div)
  from assms have "0 < \<bar>x\<bar>" by simp
  with x q have p: "0 < p" by (simp add: zero_less_divide_iff)
  let ?a = "bitlen p" and ?b = "bitlen q"
  from bitlen_bounds [OF p] have pa: "2 ^ nat (?a - 1) \<le> p" "p < 2 ^ nat ?a" by simp_all
  from bitlen_bounds [OF q] have qb: "2 ^ nat (?b - 1) \<le> q" "q < 2 ^ nat ?b" by simp_all
  have a1: "1 \<le> ?a" using p by (simp add: bitlen_alt_def)
  have b1: "1 \<le> ?b" using q by (simp add: bitlen_alt_def)
  have pa': "(2::rat) powi (?a - 1) \<le> of_int p" "of_int p < (2::rat) powi ?a"
  proof -
    have "(of_int (2 ^ nat (?a - 1)) :: rat) \<le> of_int p" using pa(1) by (simp only: of_int_le_iff)
    then show "(2::rat) powi (?a - 1) \<le> of_int p" using a1 by (simp add: power_int_def)
    have "(of_int p :: rat) < of_int (2 ^ nat ?a)" using pa(2) by (simp only: of_int_less_iff)
    then show "of_int p < (2::rat) powi ?a" using a1 by (simp add: power_int_def)
  qed
  have qb': "(2::rat) powi (?b - 1) \<le> of_int q" "of_int q < (2::rat) powi ?b"
  proof -
    have "(of_int (2 ^ nat (?b - 1)) :: rat) \<le> of_int q" using qb(1) by (simp only: of_int_le_iff)
    then show "(2::rat) powi (?b - 1) \<le> of_int q" using b1 by (simp add: power_int_def)
    have "(of_int q :: rat) < of_int (2 ^ nat ?b)" using qb(2) by (simp only: of_int_less_iff)
    then show "of_int q < (2::rat) powi ?b" using b1 by (simp add: power_int_def)
  qed
  let ?e = "?a - ?b"
  have qpos: "(0::rat) < of_int q" using q by simp
  have ppos: "(0::rat) < of_int p" using p by simp
  have up: "\<bar>x\<bar> < 2 powi (?e + 1)"
  proof -
    have "of_int p / of_int q < (2::rat) powi ?a / of_int q"
      using pa'(2) qpos by (simp add: divide_strict_right_mono)
    also have "\<dots> \<le> 2 powi ?a / 2 powi (?b - 1)"
      using qb'(1) qpos by (intro divide_left_mono) simp_all
    also have "\<dots> = 2 powi (?a - (?b - 1))"
      by (simp add: power_int_diff)
    also have "\<dots> = 2 powi (?e + 1)"
      by (rule arg_cong [where f = "\<lambda>k. 2 powi k"]) simp
    finally show ?thesis using x by simp
  qed
  have lo: "2 powi (?e - 1) < \<bar>x\<bar>"
  proof -
    have "(2::rat) powi (?e - 1) = 2 powi ((?a - 1) - ?b)"
      by (rule arg_cong [where f = "\<lambda>k. 2 powi k"]) simp
    also have "\<dots> = 2 powi (?a - 1) / 2 powi ?b"
      by (rule power_int_diff) simp
    also have "\<dots> \<le> of_int p / 2 powi ?b"
      using pa'(1) by (simp add: divide_right_mono)
    also have "\<dots> < of_int p / of_int q"
      using qb'(2) ppos qpos by (intro divide_strict_left_mono) simp_all
    finally show ?thesis using x by simp
  qed
  show ?thesis
  proof (cases "2 powi ?e \<le> \<bar>x\<bar>")
    case True
    then have "ilog2 x = ?e" by (simp add: ilog2_def pq)
    with True up show ?thesis by simp
  next
    case False
    then have "ilog2 x = ?e - 1" by (simp add: ilog2_def pq)
    with False lo show ?thesis by simp
  qed
qed

lemma ilog2_less:
  assumes "x \<noteq> 0" and "\<bar>x\<bar> < 2 powi k"
  shows "ilog2 x < k"
proof (rule ccontr)
  assume "\<not> ilog2 x < k"
  then have "k \<le> ilog2 x" by simp
  then have "(2::rat) powi k \<le> 2 powi ilog2 x" by (intro power_int_increasing) simp_all
  also have "\<dots> \<le> \<bar>x\<bar>" using ilog2_bounds [OF assms(1)] by simp
  finally show False using assms(2) by simp
qed

lemma fl_0 [simp]: "fl 0 = 0"
  by (simp add: fl_def)

lemma fl_error_ulp:
  assumes "x \<noteq> 0"
  shows "\<bar>fl x - x\<bar> \<le> 2 powi (ilog2 x - 53)"
proof -
  let ?u = "(2::rat) powi (ilog2 x - 52)"
  have u: "0 < ?u" by simp
  have "fl x - x = (of_int (round_half_even (x / ?u)) - x / ?u) * ?u"
    using assms u by (simp add: fl_def Let_def algebra_simps)
  then have "\<bar>fl x - x\<bar> = \<bar>of_int (round_half_even (x / ?u)) - x / ?u\<bar> * ?u"
    using u by (simp add: abs_mult)
  also have "\<dots> \<le> (1 / 2) * ?u"
    using rhe_error [of "x / ?u"] u by (intro mult_right_mono) simp_all
  also have "\<dots> = ?u / 2 powi 1" by simp
  also have "\<dots> = 2 powi (ilog2 x - 52 - 1)"
    by (rule power_int_diff [symmetric]) simp
  also have "\<dots> = 2 powi (ilog2 x - 53)"
    by (rule arg_cong [where f = "\<lambda>k. 2 powi k"]) simp
  finally show ?thesis .
qed

lemma fl_error: "\<bar>fl x - x\<bar> \<le> \<bar>x\<bar> / 2 ^ 53"
proof (cases "x = 0")
  case True
  then show ?thesis by simp
next
  case False
  have "\<bar>fl x - x\<bar> \<le> 2 powi (ilog2 x - 53)" by (rule fl_error_ulp [OF False])
  also have "\<dots> = 2 powi ilog2 x / 2 powi 53"
    by (rule power_int_diff) simp
  also have "\<dots> \<le> \<bar>x\<bar> / 2 powi 53"
    using ilog2_bounds [OF False] by (intro divide_right_mono) simp_all
  finally show ?thesis by simp
qed

lemma fl_exact_scaled:
  assumes "\<bar>m\<bar> < 2 ^ 53"
  shows "fl (of_int m * 2 powi k) = of_int m * 2 powi k"
proof (cases "m = 0")
  case True
  then show ?thesis by simp
next
  case False
  let ?x = "(of_int m :: rat) * 2 powi k"
  have x0: "?x \<noteq> 0" using False by simp
  have "\<bar>?x\<bar> = of_int \<bar>m\<bar> * 2 powi k" by (simp add: abs_mult)
  also have "\<dots> < of_int (2 ^ 53) * 2 powi k"
    using assms by (intro mult_strict_right_mono) (simp_all only: of_int_less_iff two_powi_pos)
  also have "\<dots> = 2 powi 53 * 2 powi k" by simp
  also have "\<dots> = 2 powi (53 + k)" by (rule power_int_add [symmetric]) simp
  finally have "ilog2 ?x < 53 + k" by (rule ilog2_less [OF x0])
  then have "0 \<le> k - (ilog2 ?x - 52)" by simp
  then obtain n :: nat where n: "k - (ilog2 ?x - 52) = int n"
    by (rule nonneg_int_cases)
  let ?u = "(2::rat) powi (ilog2 ?x - 52)"
  have "?x / ?u = of_int m * (2 powi k / ?u)" by simp
  also have "2 powi k / ?u = (2::rat) powi (k - (ilog2 ?x - 52))"
    by (rule power_int_diff [symmetric]) simp
  also have "\<dots> = 2 ^ n" by (simp only: n power_int_of_nat)
  finally have q: "?x / ?u = of_int (m * 2 ^ n)" by simp
  have "fl ?x = of_int (round_half_even (?x / ?u)) * ?u"
    using x0 by (simp add: fl_def Let_def)
  also have "\<dots> = (?x / ?u) * ?u" by (simp only: q rhe_of_int)
  also have "\<dots> = ?x" by simp
  finally show ?thesis .
qed

lemma fl_of_int_small: "\<bar>i\<bar> < 2 ^ 53 \<Longrightarrow> fl (of_int i) = of_int i"
  using fl_exact_scaled [of i 0] by simp

lemma not_overflows:
  assumes "\<bar>y\<bar> < 2 powi 1024"
  shows "\<not> overflows y"
proof (cases "y = 0")
  case True
  then show ?thesis by (simp add: overflows_def)
next
  case False
  from ilog2_less [OF False assms] show ?thesis by (simp add: overflows_def)
qed

lemma float_of_int_small: "\<bar>i\<bar> < 2 ^ 53 \<Longrightarrow> float_of_int i = Inr (of_int i)"
proof -
  assume a: "\<bar>i\<bar> < 2 ^ 53"
  have "\<bar>of_int i :: rat\<bar> = of_int \<bar>i\<bar>" by simp
  also have "\<dots> < of_int (2 ^ 53)" using a by (simp only: of_int_less_iff)
  also have "\<dots> = 2 powi 53" by simp
  also have "\<dots> < 2 powi 1024" by (intro power_int_strict_increasing) simp_all
  finally have "\<not> overflows (of_int i)" by (rule not_overflows)
  with a show ?thesis by (simp add: float_of_int_def fl_of_int_small)
qed

section \<open>Accumulated rounding error\<close>

lemma eps_bounds: "0 < eps" "eps < 1"
  by (simp_all add: eps_def)

lemma one_minus_eps_pow: "0 \<le> (1 - eps) ^ n" "(1 - eps) ^ n \<le> 1"
  using eps_bounds by (simp_all add: power_le_one)

lemma one_plus_eps_pow: "1 \<le> (1 + eps) ^ n"
  using eps_bounds by (simp add: one_le_power)

lemma rel_close_nonneg: "rel_close n a b \<Longrightarrow> 0 \<le> b \<Longrightarrow> 0 \<le> a"
proof -
  assume w: "rel_close n a b" and b: "0 \<le> b"
  have "0 \<le> b * (1 - eps) ^ n" using b one_minus_eps_pow(1) by (rule mult_nonneg_nonneg)
  also have "\<dots> \<le> a" using w by (simp add: rel_close_def)
  finally show ?thesis .
qed

lemma rel_close_fl: "0 \<le> z \<Longrightarrow> rel_close 1 (fl z) z"
proof -
  assume z: "0 \<le> z"
  have "\<bar>fl z - z\<bar> \<le> \<bar>z\<bar> / 2 ^ 53" by (rule fl_error)
  with z have "\<bar>fl z - z\<bar> \<le> z * eps" by (simp add: eps_def)
  then show ?thesis by (simp add: rel_close_def algebra_simps abs_le_iff)
qed

lemma rel_close_weaken:
  assumes "rel_close m a b" and "m \<le> n" and "0 \<le> b"
  shows "rel_close n a b"
proof -
  have "(1 - eps) ^ n \<le> (1 - eps) ^ m"
    using assms(2) eps_bounds by (intro power_decreasing) simp_all
  then have lo: "b * (1 - eps) ^ n \<le> b * (1 - eps) ^ m"
    using assms(3) by (rule mult_left_mono)
  have "(1 + eps) ^ m \<le> (1 + eps) ^ n"
    using assms(2) eps_bounds by (intro power_increasing) simp_all
  then have hi: "b * (1 + eps) ^ m \<le> b * (1 + eps) ^ n"
    using assms(3) by (rule mult_left_mono)
  from assms(1) lo hi show ?thesis by (simp add: rel_close_def)
qed

lemma rel_close_add:
  "rel_close n a b \<Longrightarrow> rel_close n a' b' \<Longrightarrow> rel_close n (a + a') (b + b')"
  by (simp add: rel_close_def algebra_simps)

lemma rel_close_trans:
  assumes "rel_close m a b" and "rel_close n c a" and "0 \<le> b"
  shows "rel_close (m + n) c b"
proof -
  have a0: "0 \<le> a" using assms(1,3) by (rule rel_close_nonneg)
  have "b * (1 - eps) ^ (m + n) = (b * (1 - eps) ^ m) * (1 - eps) ^ n"
    by (simp add: power_add)
  also have "\<dots> \<le> a * (1 - eps) ^ n"
    using assms(1) one_minus_eps_pow(1) by (intro mult_right_mono) (simp_all add: rel_close_def)
  also have "\<dots> \<le> c" using assms(2) by (simp add: rel_close_def)
  finally have lo: "b * (1 - eps) ^ (m + n) \<le> c" .
  have "c \<le> a * (1 + eps) ^ n" using assms(2) by (simp add: rel_close_def)
  also have "\<dots> \<le> (b * (1 + eps) ^ m) * (1 + eps) ^ n"
    using assms(1) eps_bounds by (intro mult_right_mono) (simp_all add: rel_close_def)
  also have "\<dots> = b * (1 + eps) ^ (m + n)" by (simp add: power_add)
  finally have hi: "c \<le> b * (1 + eps) ^ (m + n)" .
  from lo hi show ?thesis by (simp add: rel_close_def)
qed

lemma rel_close_fl_step:
  "rel_close m a b \<Longrightarrow> 0 \<le> b \<Longrightarrow> rel_close (Suc m) (fl a) b"
proof -
  assume w: "rel_close m a b" and b: "0 \<le> b"
  have "0 \<le> a" using w b by (rule rel_close_nonneg)
  then have "rel_close 1 (fl a) a" by (rule rel_close_fl)
  from rel_close_trans [OF w this b] show ?thesis by simp
qed

lemma rel_close_mult:
  assumes "rel_close m a b" and "rel_close n a' b'" and "0 \<le> b" and "0 \<le> b'"
  shows "rel_close (m + n) (a * a') (b * b')"
proof -
  have a0: "0 \<le> a" using assms(1,3) by (rule rel_close_nonneg)
  have a0': "0 \<le> a'" using assms(2,4) by (rule rel_close_nonneg)
  have l1: "b * (1 - eps) ^ m \<le> a" and h1: "a \<le> b * (1 + eps) ^ m"
    using assms(1) by (simp_all add: rel_close_def)
  have l2: "b' * (1 - eps) ^ n \<le> a'" and h2: "a' \<le> b' * (1 + eps) ^ n"
    using assms(2) by (simp_all add: rel_close_def)
  have "(b * (1 - eps) ^ m) * (b' * (1 - eps) ^ n) \<le> a * a'"
    using l1 l2 assms(3,4) one_minus_eps_pow(1) a0
    by (intro mult_mono) (simp_all add: mult_nonneg_nonneg)
  then have lo: "(b * b') * (1 - eps) ^ (m + n) \<le> a * a'"
    by (simp add: power_add algebra_simps)
  have "a * a' \<le> (b * (1 + eps) ^ m) * (b' * (1 + eps) ^ n)"
    using h1 h2 a0 a0' assms(3,4) eps_bounds
    by (intro mult_mono) (simp_all add: mult_nonneg_nonneg)
  then have hi: "a * a' \<le> (b * b') * (1 + eps) ^ (m + n)"
    by (simp add: power_add algebra_simps)
  from lo hi show ?thesis by (simp add: rel_close_def)
qed

lemma rel_close_le: "rel_close m a b \<Longrightarrow> 0 \<le> b \<Longrightarrow> m \<le> n \<Longrightarrow> rel_close n a b"
  by (rule rel_close_weaken)

lemma rel_close_fl_to:
  "rel_close m a b \<Longrightarrow> 0 \<le> b \<Longrightarrow> m < n \<Longrightarrow> rel_close n (fl a) b"
proof -
  assume w: "rel_close m a b" and b: "0 \<le> b" and mn: "m < n"
  from w b have "rel_close (Suc m) (fl a) b" by (rule rel_close_fl_step)
  then show ?thesis using b by (rule rel_close_le) (use mn in simp)
qed

lemma rel_close_fl_n: "0 \<le> z \<Longrightarrow> 1 \<le> n \<Longrightarrow> rel_close n (fl z) z"
  using rel_close_le [OF rel_close_fl, of z n] by simp

lemma rel_close_mult_to:
  "rel_close m a b \<Longrightarrow> rel_close k a' b' \<Longrightarrow> 0 \<le> b \<Longrightarrow> 0 \<le> b' \<Longrightarrow> m + k \<le> n \<Longrightarrow>
   rel_close n (a * a') (b * b')"
proof -
  assume w: "rel_close m a b" "rel_close k a' b'" and b: "0 \<le> b" "0 \<le> b'" and mn: "m + k \<le> n"
  from w b have "rel_close (m + k) (a * a') (b * b')" by (rule rel_close_mult)
  then show ?thesis using mult_nonneg_nonneg [OF b] mn by (rule rel_close_le)
qed

lemma eps_pow7_upper: "(1 + eps) ^ 7 \<le> 1 + 1 / 2 ^ 50"
  by (simp add: eps_def power_divide divide_le_eq)

lemma eps_pow7_lower: "1 - 1 / 2 ^ 50 \<le> (1 - eps) ^ 7"
  by (simp add: eps_def power_divide le_divide_eq)

lemma rel_close7_abs:
  assumes "rel_close 7 a b" and "0 \<le> b"
  shows "\<bar>a - b\<bar> \<le> b / 2 ^ 50"
proof -
  have "a \<le> b * (1 + eps) ^ 7" using assms(1) by (simp add: rel_close_def)
  also have "\<dots> \<le> b * (1 + 1 / 2 ^ 50)" using eps_pow7_upper assms(2) by (rule mult_left_mono)
  finally have hi: "a - b \<le> b / 2 ^ 50" by (simp add: algebra_simps)
  have "b * (1 - 1 / 2 ^ 50) \<le> b * (1 - eps) ^ 7" using eps_pow7_lower assms(2) by (rule mult_left_mono)
  also have "\<dots> \<le> a" using assms(1) by (simp add: rel_close_def)
  finally have lo: "- (b / 2 ^ 50) \<le> a - b" by (simp add: algebra_simps)
  from lo hi show ?thesis by linarith
qed

subsection \<open>The risk sum stays within seven roundings of the exact formula\<close>

lemma lit_0_25_close: "rel_close 1 lit_0_25 (1 / 4)"
  unfolding lit_0_25_def by (rule rel_close_fl) simp

lemma lit_0_35_close: "rel_close 1 lit_0_35 (7 / 20)"
  unfolding lit_0_35_def by (rule rel_close_fl) simp

lemma lit_0_6_close: "rel_close 1 lit_0_6 (3 / 5)"
  unfolding lit_0_6_def by (rule rel_close_fl) simp

lemma float_of_int_Inr:
  "float_of_int i = Inr y \<Longrightarrow> y = fl (of_int i)"
  by (auto simp: float_of_int_def Let_def split: if_splits)

lemma fadd_Inr: "fadd x y = Inr z \<Longrightarrow> z = fl (x + y)"
  by (auto simp: fadd_def Let_def split: if_splits)

lemma float_of_int_close:
  assumes "float_of_int i = Inr y" and "0 \<le> i" and "1 \<le> n"
  shows "rel_close n y (of_int i)"
proof -
  have "y = fl (of_int i)" using assms(1) by (rule float_of_int_Inr)
  moreover have "rel_close n (fl (of_int i)) (of_int i)"
    using assms(2,3) by (intro rel_close_fl_n) simp_all
  ultimately show ?thesis by simp
qed

lemma scaled_close:
  assumes "float_of_int i = Inr y" and "0 \<le> i" and "rel_close 1 c c0" and "0 \<le> c0"
  shows "rel_close 3 (fmul y c) (of_int i * c0)"
proof -
  have y: "rel_close 1 y (of_int i)" using assms(1,2) by (rule float_of_int_close) simp
  have i0: "(0::rat) \<le> of_int i" using assms(2) by simp
  have "rel_close 2 (y * c) (of_int i * c0)"
    using y assms(3) i0 assms(4) by (rule rel_close_mult_to) simp
  then have "rel_close 3 (fl (y * c)) (of_int i * c0)"
    using mult_nonneg_nonneg [OF i0 assms(4)] by (rule rel_close_fl_to) simp
  then show ?thesis by (simp add: fmul_def)
qed

lemma risk_sum_close:
  assumes r: "risk_sum s t f u = Inr x"
    and nn: "0 \<le> s" "0 \<le> t" "0 \<le> f" "0 \<le> u"
  shows "rel_close 7 x (exact_risk_sum s t f u)"
proof -
  from r obtain ys r1 yt r2 yf r3 yu where
    ys: "float_of_int s = Inr ys" and r1: "fadd 0 (fmul ys lit_0_25) = Inr r1" and
    yt: "float_of_int t = Inr yt" and r2: "fadd r1 (fmul yt lit_0_35) = Inr r2" and
    yf: "float_of_int (f * 14) = Inr yf" and r3: "fadd r2 yf = Inr r3" and
    yu: "float_of_int (u * 5) = Inr yu" and x: "fadd r3 yu = Inr x"
    by (auto simp: risk_sum_def ebind_eq_Inr)
  let ?a = "of_int s * (1 / 4) :: rat" and ?b = "of_int t * (7 / 20) :: rat"
  let ?c = "of_int (f * 14) :: rat" and ?d = "of_int (u * 5) :: rat"
  have a0: "0 \<le> ?a" and b0: "0 \<le> ?b" and c0: "0 \<le> ?c" and d0: "0 \<le> ?d"
    using nn by simp_all
  have ab0: "0 \<le> ?a + ?b" using a0 b0 by simp
  have abc0: "0 \<le> ?a + ?b + ?c" using ab0 c0 by simp
  have abcd0: "0 \<le> ?a + ?b + ?c + ?d" using abc0 d0 by simp
  have p1: "rel_close 3 (fmul ys lit_0_25) ?a"
    using ys nn(1) lit_0_25_close by (rule scaled_close) simp
  then have "rel_close 4 (fl (fmul ys lit_0_25)) ?a" using a0 by (rule rel_close_fl_to) simp
  moreover have "r1 = fl (0 + fmul ys lit_0_25)" using r1 by (rule fadd_Inr)
  ultimately have r1c: "rel_close 4 r1 ?a" by simp
  have "rel_close 3 (fmul yt lit_0_35) ?b"
    using yt nn(2) lit_0_35_close by (rule scaled_close) simp
  then have "rel_close 4 (fmul yt lit_0_35) ?b" using b0 by (rule rel_close_le) simp
  with r1c have "rel_close 4 (r1 + fmul yt lit_0_35) (?a + ?b)" by (rule rel_close_add)
  then have "rel_close 5 (fl (r1 + fmul yt lit_0_35)) (?a + ?b)"
    using ab0 by (rule rel_close_fl_to) simp
  moreover have "r2 = fl (r1 + fmul yt lit_0_35)" using r2 by (rule fadd_Inr)
  ultimately have r2c: "rel_close 5 r2 (?a + ?b)" by simp
  have "0 \<le> f * 14" using nn(3) by simp
  with yf have "rel_close 5 yf ?c" by (rule float_of_int_close) simp
  with r2c have "rel_close 5 (r2 + yf) (?a + ?b + ?c)" by (rule rel_close_add)
  then have "rel_close 6 (fl (r2 + yf)) (?a + ?b + ?c)"
    using abc0 by (rule rel_close_fl_to) simp
  moreover have "r3 = fl (r2 + yf)" using r3 by (rule fadd_Inr)
  ultimately have r3c: "rel_close 6 r3 (?a + ?b + ?c)" by simp
  have "0 \<le> u * 5" using nn(4) by simp
  with yu have "rel_close 6 yu ?d" by (rule float_of_int_close) simp
  with r3c have "rel_close 6 (r3 + yu) (?a + ?b + ?c + ?d)" by (rule rel_close_add)
  then have "rel_close 7 (fl (r3 + yu)) (?a + ?b + ?c + ?d)"
    using abcd0 by (rule rel_close_fl_to) simp
  moreover have "x = fl (r3 + yu)" using x by (rule fadd_Inr)
  ultimately have "rel_close 7 x (?a + ?b + ?c + ?d)" by simp
  moreover have "?a + ?b + ?c + ?d = exact_risk_sum s t f u"
    by (simp add: exact_risk_sum_def)
  ultimately show ?thesis by simp
qed

section \<open>When the double-precision result rounds like the exact value\<close>

lemma nearest_20:
  assumes "K mod 20 \<noteq> (10::int)"
  shows "\<bar>of_int ((K + 10) div 20) - (of_int K :: rat) / 20\<bar> \<le> 9 / 20"
proof -
  let ?n = "(K + 10) div 20" and ?m = "(K + 10) mod 20"
  have m: "0 \<le> ?m" "?m < 20" by simp_all
  have "?m \<noteq> 0" using assms by presburger
  with m have m': "1 \<le> ?m" "?m \<le> 19" by simp_all
  have "K + 10 = 20 * ?n + ?m" by simp
  then have "20 * ?n - K = 10 - ?m" by linarith
  with m' have "\<bar>20 * ?n - K\<bar> \<le> 9" by linarith
  then have "(of_int \<bar>20 * ?n - K\<bar> :: rat) \<le> of_int 9" by (simp only: of_int_le_iff)
  then have "\<bar>20 * of_int ?n - (of_int K :: rat)\<bar> \<le> 9" by simp
  then show ?thesis by linarith
qed

lemma nearest_5:
  "\<bar>of_int ((K + 2) div 5) - (of_int K :: rat) / 5\<bar> \<le> 2 / 5"
proof -
  let ?n = "(K + 2) div 5" and ?m = "(K + 2) mod 5"
  have m: "0 \<le> ?m" "?m \<le> 4" by simp_all
  have "K + 2 = 5 * ?n + ?m" by simp
  then have "5 * ?n - K = 2 - ?m" by linarith
  with m have "\<bar>5 * ?n - K\<bar> \<le> 2" by linarith
  then have "(of_int \<bar>5 * ?n - K\<bar> :: rat) \<le> of_int 2" by (simp only: of_int_le_iff)
  then have "\<bar>5 * of_int ?n - (of_int K :: rat)\<bar> \<le> 2" by simp
  then show ?thesis by linarith
qed

lemma round_half_up_unique:
  assumes "\<bar>of_int n - y\<bar> < 1 / 2"
  shows "round_half_up y = n"
  unfolding round_half_up_def using assms by (intro floor_unique) linarith+

lemma rounds_agree:
  assumes "\<bar>of_int n - x\<bar> \<le> 9 / 20" and "\<bar>y - x\<bar> < 1 / 20"
  shows "round_half_even y = n" and "round_half_even x = n" and "round_half_up x = n"
proof -
  from assms have "\<bar>of_int n - y\<bar> < 1 / 2" by linarith
  then show "round_half_even y = n" by (rule rhe_unique)
  from assms(1) have x: "\<bar>of_int n - x\<bar> < 1 / 2" by linarith
  then show "round_half_even x = n" by (rule rhe_unique)
  from x show "round_half_up x = n" by (rule round_half_up_unique)
qed

lemma rhe_large: "199 \<le> y \<Longrightarrow> 100 \<le> round_half_even y"
proof -
  assume "199 \<le> y"
  with rhe_error [of y] have "(198::rat) \<le> of_int (round_half_even y)" by linarith
  then have "(of_int 198 :: rat) \<le> of_int (round_half_even y)" by simp
  then have "198 \<le> round_half_even y" by (simp only: of_int_le_iff)
  then show ?thesis by simp
qed

lemma round_half_up_large: "199 \<le> y \<Longrightarrow> 100 \<le> round_half_up y"
proof -
  assume "199 \<le> y"
  then have "of_int 199 \<le> y + 1 / 2" by simp
  then have "199 \<le> \<lfloor>y + 1 / 2\<rfloor>" by (simp only: le_floor_iff)
  then show ?thesis by (simp add: round_half_up_def)
qed

lemma exact_risk_sum_20:
  "exact_risk_sum s t f u = of_int (5 * s + 7 * t + 280 * f + 100 * u) / 20"
  by (simp add: exact_risk_sum_def field_simps)

lemma risk_sum_rounds_exactly:
  assumes r: "risk_sum s t f u = Inr x"
    and nn: "0 \<le> s" "0 \<le> t" "0 \<le> f" "0 \<le> u"
    and tie: "(5 * s + 7 * t) mod 20 \<noteq> 10"
  shows "clamp 0 100 (round_half_even x) = clamp 0 100 (round_half_even (exact_risk_sum s t f u))"
    and "clamp 0 100 (round_half_even x) = clamp 0 100 (round_half_up (exact_risk_sum s t f u))"
proof -
  let ?e = "exact_risk_sum s t f u"
  let ?K = "5 * s + 7 * t + 280 * f + 100 * u"
  have e0: "0 \<le> ?e" using nn by (simp add: exact_risk_sum_def)
  have c: "rel_close 7 x ?e" using r nn by (rule risk_sum_close)
  then have err: "\<bar>x - ?e\<bar> \<le> ?e / 2 ^ 50" using e0 by (rule rel_close7_abs)
  have "?K = (5 * s + 7 * t) + 20 * (14 * f + 5 * u)" by simp
  then have "?K mod 20 = (5 * s + 7 * t) mod 20" by (simp only: mod_mult_self2)
  with tie have K: "?K mod 20 \<noteq> 10" by simp
  have both: "clamp 0 100 (round_half_even x) = clamp 0 100 (round_half_even ?e)
      \<and> clamp 0 100 (round_half_even x) = clamp 0 100 (round_half_up ?e)"
  proof (cases "?e \<le> 200")
    case True
    then have "?e / 2 ^ 50 \<le> 200 / 2 ^ 50" by (intro divide_right_mono) simp_all
    moreover have "(200::rat) / 2 ^ 50 < 1 / 20" by simp
    ultimately have d: "\<bar>x - ?e\<bar> < 1 / 20" using err by linarith
    have n: "\<bar>of_int ((?K + 10) div 20) - ?e\<bar> \<le> 9 / 20"
      using nearest_20 [OF K] by (simp only: exact_risk_sum_20)
    from rounds_agree [OF n d] show ?thesis by simp
  next
    case False
    then have big: "200 < ?e" by simp
    have "?e / 2 ^ 50 \<le> ?e / 200" using e0 by (intro divide_left_mono) simp_all
    with err big have "199 \<le> x" by linarith
    then have 1: "100 \<le> round_half_even x" by (rule rhe_large)
    from big have "199 \<le> ?e" by simp
    then have 2: "100 \<le> round_half_even ?e" and 3: "100 \<le> round_half_up ?e"
      by (rule rhe_large, rule round_half_up_large)
    from 1 2 3 show ?thesis by (simp add: clamp_def)
  qed
  from both show "clamp 0 100 (round_half_even x) = clamp 0 100 (round_half_even ?e)" by simp
  from both show "clamp 0 100 (round_half_even x) = clamp 0 100 (round_half_up ?e)" by simp
qed

lemma confidence_of_exact:
  assumes "0 \<le> risk" and "risk \<le> 100"
  shows "confidence_of risk = clamp 50 95 (round_half_even (90 - 3 * of_int risk / 5))"
    and "confidence_of risk = clamp 50 95 (round_half_up (90 - 3 * of_int risk / 5))"
proof -
  let ?E = "90 - 3 * (of_int risk :: rat) / 5"
  let ?K = "450 - 3 * risk"
  have small: "\<bar>risk\<bar> < 2 ^ 53" using assms by simp
  have fi: "float_of_int risk = Inr (of_int risk)" using small by (rule float_of_int_small)
  have fr: "fl (of_int risk) = of_int risk" using small by (rule fl_of_int_small)
  let ?a = "fmul (of_int risk) lit_0_6"
  have "rel_close 3 ?a (of_int risk * (3 / 5))"
    using fi assms(1) lit_0_6_close by (rule scaled_close) simp
  have r0: "(0::rat) \<le> of_int risk" using assms(1) by simp
  have r100: "(of_int risk :: rat) \<le> 100" using assms(2) by simp
  have p0: "(0::rat) \<le> of_int risk * (3 / 5)" using r0 by simp
  have p60: "of_int risk * (3 / 5) \<le> (60::rat)" using r100 by simp
  have "rel_close 7 ?a (of_int risk * (3 / 5))"
    using \<open>rel_close 3 ?a (of_int risk * (3 / 5))\<close> p0 by (rule rel_close_le) simp
  then have "\<bar>?a - of_int risk * (3 / 5)\<bar> \<le> of_int risk * (3 / 5) / 2 ^ 50"
    using p0 by (rule rel_close7_abs)
  moreover have "of_int risk * (3 / 5) / 2 ^ 50 \<le> (60::rat) / 2 ^ 50"
    using p60 by (intro divide_right_mono) simp_all
  ultimately have ea: "\<bar>?a - of_int risk * (3 / 5)\<bar> \<le> 60 / 2 ^ 50" by linarith
  have k1: "(60::rat) / 2 ^ 50 < 1 / 100" by simp
  have k2: "(200::rat) / 2 ^ 53 < 1 / 100" by simp
  from ea k1 p0 p60 have a_bounds: "\<bar>90 - ?a\<bar> \<le> 200" by linarith
  let ?b = "fl (90 - ?a)"
  have "\<bar>?b - (90 - ?a)\<bar> \<le> \<bar>90 - ?a\<bar> / 2 ^ 53" by (rule fl_error)
  moreover have "\<bar>90 - ?a\<bar> / 2 ^ 53 \<le> 200 / 2 ^ 53"
    using a_bounds by (intro divide_right_mono) simp_all
  ultimately have eb: "\<bar>?b - (90 - ?a)\<bar> \<le> 200 / 2 ^ 53" by linarith
  have "?E = 90 - of_int risk * (3 / 5)" by simp
  with ea eb k1 k2 have d: "\<bar>?b - ?E\<bar> < 1 / 20" by linarith
  have E: "?E = of_int ?K / 5" by (simp add: field_simps)
  have "\<bar>of_int ((?K + 2) div 5) - ?E\<bar> \<le> 2 / 5" using nearest_5 [of ?K] by (simp only: E)
  then have n: "\<bar>of_int ((?K + 2) div 5) - ?E\<bar> \<le> 9 / 20" by linarith
  have c: "confidence_of risk = clamp 50 95 (round_half_even ?b)"
    by (simp add: confidence_of_def clamp_def fr)
  from rounds_agree [OF n d] c
  show "confidence_of risk = clamp 50 95 (round_half_even ?E)"
    and "confidence_of risk = clamp 50 95 (round_half_up ?E)" by simp_all
qed

section \<open>Final scoring\<close>

lemma attr_get_Inr: "attr_get r k = Inr v \<Longrightarrow> \<exists>d. r = PDict d \<and> v = get d k"
  by (cases r) simp_all

lemma count_verdicts_eq:
  "count_verdicts vs rs = Inr n \<Longrightarrow> n = count_with_verdict vs rs"
proof (induction rs arbitrary: n)
  case Nil
  then show ?case by (simp add: count_with_verdict_def)
next
  case (Cons r rs)
  from Cons.prems obtain v m where v: "attr_get r ''verdict'' = Inr v"
    and m: "count_verdicts vs rs = Inr m"
    and n: "n = (if v \<in> set (map (\<lambda>s. Some (PStr s)) vs) then 1 else 0) + m"
    by (auto simp: ebind_eq_Inr)
  from attr_get_Inr [OF v] obtain d where d: "r = PDict d" "v = get d ''verdict''" by blast
  from Cons.IH [OF m] have "m = count_with_verdict vs rs" .
  with n d show ?case by (simp add: count_with_verdict_def has_verdict_def)
qed

lemma int_or_0_score: "score_ok d k \<Longrightarrow> int_or_0 d k = Inr (score_of d k)"
  by (auto simp: score_ok_def score_of_def int_or_0_def get_default_def get_def Let_def
      split: option.splits pyval.splits)

lemma risk_score_Inr:
  "risk_score s t f u = Inr risk \<Longrightarrow>
   \<exists>x. risk_sum s t f u = Inr x \<and> risk = clamp 0 100 (round_half_even x)"
  by (auto simp: risk_score_def ebind_eq_Inr clamp_def)

lemma clamp_range: "lo \<le> hi \<Longrightarrow> lo \<le> clamp lo hi x \<and> clamp lo hi x \<le> hi"
  by (simp add: clamp_def)

lemma compute_final_Inr:
  assumes "compute_final fc sp tm = Inr r"
  shows "\<exists>rs fm un tot avg s t risk.
           py_iter (get_default fc ''results'' (PList [])) = Inr rs \<and>
           count_verdicts [''false'', ''mixed''] rs = Inr fm \<and>
           count_verdicts [''unclear''] rs = Inr un \<and>
           sum_confidence 0 rs = Inr tot \<and>
           true_div tot (max 1 (int (length rs))) = Inr avg \<and>
           int_or_0 sp ''splice_risk_score'' = Inr s \<and>
           int_or_0 tm ''timeline_mismatch_risk_score'' = Inr t \<and>
           risk_score s t fm un = Inr risk \<and>
           r = \<lparr> verdict = select_verdict fm t risk,
                 confidence_percent = confidence_of risk,
                 misinformation_risk_score = risk,
                 avg_factcheck_confidence = round1 avg,
                 false_or_mixed_claims = fm,
                 unclear_claims = un,
                 splice_risk_score = s,
                 timeline_mismatch_risk_score = t,
                 likely_event_year = get_default tm ''likely_event_year'' PNone,
                 posted_date = get_default tm ''posted_date'' PNone \<rparr>"
  using assms unfolding compute_final_def ebind_eq_Inr by blast

lemma compute_final_eval:
  assumes "py_iter (get_default fc ''results'' (PList [])) = Inr rs"
    and "count_verdicts [''false'', ''mixed''] rs = Inr fm"
    and "count_verdicts [''unclear''] rs = Inr un"
    and "sum_confidence 0 rs = Inr tot"
    and "true_div tot (max 1 (int (length rs))) = Inr avg"
    and "int_or_0 sp ''splice_risk_score'' = Inr s"
    and "int_or_0 tm ''timeline_mismatch_risk_score'' = Inr t"
    and "risk_score s t fm un = Inr risk"
  shows "compute_final fc sp tm =
           Inr \<lparr> verdict = select_verdict fm t risk,
                 confidence_percent = confidence_of risk,
                 misinformation_risk_score = risk,
                 avg_factcheck_confidence = round1 avg,
                 false_or_mixed_claims = fm,
                 unclear_claims = un,
                 splice_risk_score = s,
                 timeline_mismatch_risk_score = t,
                 likely_event_year = get_default tm ''likely_event_year'' PNone,
                 posted_date = get_default tm ''posted_date'' PNone \<rparr>"
  using assms by (simp add: compute_final_def)

lemma compute_final_fields:
  assumes "compute_final fc sp tm = Inr r"
  shows "\<exists>rs. py_iter (get_default fc ''results'' (PList [])) = Inr rs \<and>
          false_or_mixed_claims r = count_with_verdict [''false'', ''mixed''] rs \<and>
          unclear_claims r = count_with_verdict [''unclear''] rs \<and>
          int_or_0 sp ''splice_risk_score'' = Inr (splice_risk_score r) \<and>
          int_or_0 tm ''timeline_mismatch_risk_score'' = Inr (timeline_mismatch_risk_score r) \<and>
          risk_score (splice_risk_score r) (timeline_mismatch_risk_score r)
            (false_or_mixed_claims r) (unclear_claims r) = Inr (misinformation_risk_score r) \<and>
          verdict r = select_verdict (false_or_mixed_claims r) (timeline_mismatch_risk_score r)
            (misinformation_risk_score r) \<and>
          confidence_percent r = confidence_of (misinformation_risk_score r)"
proof -
  from compute_final_Inr [OF assms] obtain rs fm un tot avg s t risk where
    h: "py_iter (get_default fc ''results'' (PList [])) = Inr rs"
       "count_verdicts [''false'', ''mixed''] rs = Inr fm"
       "count_verdicts [''unclear''] rs = Inr un"
       "int_or_0 sp ''splice_risk_score'' = Inr s"
       "int_or_0 tm ''timeline_mismatch_risk_score'' = Inr t"
       "risk_score s t fm un = Inr risk"
    and r: "r = \<lparr> verdict = select_verdict fm t risk,
                 confidence_percent = confidence_of risk,
                 misinformation_risk_score = risk,
                 avg_factcheck_confidence = round1 avg,
                 false_or_mixed_claims = fm,
                 unclear_claims = un,
                 splice_risk_score = s,
                 timeline_mismatch_risk_score = t,
                 likely_event_year = get_default tm ''likely_event_year'' PNone,
                 posted_date = get_default tm ''posted_date'' PNone \<rparr>"
    by blast
  from count_verdicts_eq [OF h(2)] count_verdicts_eq [OF h(3)] h r
  show ?thesis by simp
qed

subsection \<open>Typed inputs never raise\<close>

lemma result_ok_dict: "result_ok r \<Longrightarrow> \<exists>d. r = PDict d"
  by (cases r) (simp_all add: result_ok_def)

lemma count_verdicts_total:
  "list_all result_ok rs \<Longrightarrow> count_verdicts vs rs = Inr (count_with_verdict vs rs)"
proof (induction rs)
  case Nil
  then show ?case by (simp add: count_with_verdict_def)
next
  case (Cons r rs)
  then obtain d where "r = PDict d" by (auto dest: result_ok_dict)
  with Cons show ?case by (simp add: count_with_verdict_def has_verdict_def)
qed

lemma count_with_verdict_bounds:
  "0 \<le> count_with_verdict vs rs \<and> count_with_verdict vs rs \<le> int (length rs)"
  by (simp add: count_with_verdict_def)

lemma sum_confidence_total:
  "list_all result_ok rs \<Longrightarrow>
   \<exists>tot. sum_confidence acc rs = Inr tot \<and> acc \<le> tot \<and> tot \<le> acc + 100 * int (length rs)"
proof (induction rs arbitrary: acc)
  case Nil
  then show ?case by simp
next
  case (Cons r rs)
  then obtain d where d: "r = PDict d" by (auto dest: result_ok_dict)
  from Cons.prems d obtain c where c: "py_add_int acc (case get d ''confidence'' of None \<Rightarrow> PInt 0 | Some c \<Rightarrow> c) = Inr (acc + c)"
    "0 \<le> c" "c \<le> 100"
    by (auto simp: result_ok_def split: option.splits pyval.splits)
  from Cons.prems have "list_all result_ok rs" by simp
  from Cons.IH [OF this, of "acc + c"] obtain tot where
    "sum_confidence (acc + c) rs = Inr tot" "acc + c \<le> tot" "tot \<le> acc + c + 100 * int (length rs)"
    by blast
  with c d show ?case by simp
qed

lemma fl_abs_le: "\<bar>fl y\<bar> \<le> 2 * \<bar>y\<bar>"
proof -
  have "\<bar>fl y - y\<bar> \<le> \<bar>y\<bar> / 2 ^ 53" by (rule fl_error)
  also have "\<bar>y\<bar> / 2 ^ 53 \<le> \<bar>y\<bar> / 1" by (intro divide_left_mono) simp_all
  finally have "\<bar>fl y - y\<bar> \<le> \<bar>y\<bar>" by (simp only: div_by_1)
  then show ?thesis by linarith
qed

lemma not_overflows_bounded:
  assumes "\<bar>y\<bar> \<le> 2 ^ 1000"
  shows "\<not> overflows y"
proof (rule not_overflows)
  have "(2::rat) ^ 1000 = 2 powi 1000" by simp
  also have "\<dots> < 2 powi 1024" by (intro power_int_strict_increasing) simp_all
  finally show "\<bar>y\<bar> < 2 powi 1024" using assms by simp
qed

lemma true_div_total:
  assumes "\<bar>a\<bar> \<le> 100 * b" and "1 \<le> b"
  shows "\<exists>avg. true_div a b = Inr avg"
proof -
  have b: "(0::rat) < of_int b" using assms(2) by simp
  have "\<bar>of_int a / of_int b :: rat\<bar> = of_int \<bar>a\<bar> / of_int b" using b by simp
  also have "\<dots> \<le> of_int (100 * b) / of_int b"
  proof (rule divide_right_mono)
    show "(of_int \<bar>a\<bar> :: rat) \<le> of_int (100 * b)"
      using assms(1) by (rule of_int_le_iff [THEN iffD2])
    show "(0::rat) \<le> of_int b" using b by (rule less_imp_le)
  qed
  also have "\<dots> = 100" using b by simp
  finally have "\<bar>of_int a / of_int b :: rat\<bar> \<le> 100" .
  with fl_abs_le [of "of_int a / of_int b"]
  have "\<bar>fl (of_int a / of_int b)\<bar> \<le> 200" by linarith
  moreover have "(200::rat) \<le> 2 ^ 1000" by simp
  ultimately have "\<not> overflows (fl (of_int a / of_int b))"
    by (intro not_overflows_bounded) linarith
  then show ?thesis by (simp add: true_div_def Let_def)
qed

lemma fadd_total:
  assumes "\<bar>x\<bar> \<le> B" and "\<bar>y\<bar> \<le> B" and "B \<le> 2 ^ 900"
  shows "fadd x y = Inr (fl (x + y)) \<and> \<bar>fl (x + y)\<bar> \<le> 4 * B"
proof -
  have xy: "\<bar>x + y\<bar> \<le> 2 * B" using assms(1,2) by linarith
  have "\<bar>fl (x + y)\<bar> \<le> 2 * \<bar>x + y\<bar>" by (rule fl_abs_le)
  also have "\<dots> \<le> 2 * (2 * B)" using xy by (intro mult_left_mono) simp_all
  finally have b: "\<bar>fl (x + y)\<bar> \<le> 4 * B" by simp
  have "4 * (2::rat) ^ 900 \<le> 2 ^ 1000" by simp
  with b assms(3) have "\<bar>fl (x + y)\<bar> \<le> 2 ^ 1000" by linarith
  then have "\<not> overflows (fl (x + y))" by (rule not_overflows_bounded)
  with b show ?thesis by (simp add: fadd_def Let_def)
qed

lemma lit_bounds: "\<bar>lit_0_25\<bar> \<le> 1" "\<bar>lit_0_35\<bar> \<le> 1"
  using fl_abs_le [of "1 / 4"] fl_abs_le [of "7 / 20"]
  by (simp_all add: lit_0_25_def lit_0_35_def)

lemma fmul_bound:
  assumes "\<bar>y\<bar> \<le> B" and "\<bar>c\<bar> \<le> 1"
  shows "\<bar>fmul y c\<bar> \<le> 2 * B"
proof -
  have "\<bar>y * c\<bar> = \<bar>y\<bar> * \<bar>c\<bar>" by (rule abs_mult)
  also have "\<dots> \<le> B * 1" using assms by (intro mult_mono) simp_all
  finally have "\<bar>y * c\<bar> \<le> B" by simp
  with fl_abs_le [of "y * c"] show ?thesis by (simp add: fmul_def)
qed

lemma risk_sum_total:
  assumes "\<bar>s\<bar> < 2 ^ 53" and "\<bar>t\<bar> < 2 ^ 53" and "\<bar>f * 14\<bar> < 2 ^ 53" and "\<bar>u * 5\<bar> < 2 ^ 53"
  shows "\<exists>x. risk_sum s t f u = Inr x"
proof -
  let ?B = "(2::rat) ^ 54"
  have small: "\<bar>of_int i :: rat\<bar> \<le> 2 ^ 53" if "\<bar>i\<bar> < 2 ^ 53" for i :: int
  proof -
    have "(of_int \<bar>i\<bar> :: rat) \<le> of_int (2 ^ 53)" using that by (simp only: of_int_le_iff)
    then show ?thesis by simp
  qed
  note ys = float_of_int_small [OF assms(1)] and yt = float_of_int_small [OF assms(2)]
    and yf = float_of_int_small [OF assms(3)] and yu = float_of_int_small [OF assms(4)]
  have p1: "\<bar>fmul (of_int s) lit_0_25\<bar> \<le> ?B"
    using fmul_bound [OF small [OF assms(1)] lit_bounds(1)] by simp
  have p2: "\<bar>fmul (of_int t) lit_0_35\<bar> \<le> ?B"
    using fmul_bound [OF small [OF assms(2)] lit_bounds(2)] by simp
  have z: "\<bar>0::rat\<bar> \<le> ?B" by simp
  from fadd_total [OF z p1] have r1: "fadd 0 (fmul (of_int s) lit_0_25) = Inr (fl (0 + fmul (of_int s) lit_0_25))"
    and b1: "\<bar>fl (0 + fmul (of_int s) lit_0_25)\<bar> \<le> 2 ^ 56" by simp_all
  let ?r1 = "fl (0 + fmul (of_int s) lit_0_25)"
  have p2': "\<bar>fmul (of_int t) lit_0_35\<bar> \<le> 2 ^ 56" using p2 by simp
  from fadd_total [OF b1 p2'] have r2: "fadd ?r1 (fmul (of_int t) lit_0_35) = Inr (fl (?r1 + fmul (of_int t) lit_0_35))"
    and b2: "\<bar>fl (?r1 + fmul (of_int t) lit_0_35)\<bar> \<le> 2 ^ 58" by simp_all
  let ?r2 = "fl (?r1 + fmul (of_int t) lit_0_35)"
  have f': "\<bar>of_int (f * 14) :: rat\<bar> \<le> 2 ^ 58"
    by (rule order_trans [OF small [OF assms(3)]]) simp
  from fadd_total [OF b2 f'] have r3: "fadd ?r2 (of_int (f * 14)) = Inr (fl (?r2 + of_int (f * 14)))"
    and b3: "\<bar>fl (?r2 + of_int (f * 14))\<bar> \<le> 2 ^ 60" by simp_all
  let ?r3 = "fl (?r2 + of_int (f * 14))"
  have u': "\<bar>of_int (u * 5) :: rat\<bar> \<le> 2 ^ 60"
    by (rule order_trans [OF small [OF assms(4)]]) simp
  from fadd_total [OF b3 u'] have r4: "fadd ?r3 (of_int (u * 5)) = Inr (fl (?r3 + of_int (u * 5)))"
    by simp
  show ?thesis
    unfolding risk_sum_def by (simp only: ys yt yf yu r1 r2 r3 r4 ebind_Inr) blast
qed

lemma risk_score_value:
  assumes "0 \<le> s" "s < 2 ^ 53" and "0 \<le> t" "t < 2 ^ 53"
    and "0 \<le> f" "f * 14 < 2 ^ 53" and "0 \<le> u" "u * 5 < 2 ^ 53"
    and "(5 * s + 7 * t) mod 20 \<noteq> 10"
  shows "risk_score s t f u = Inr (clamp 0 100 (round_half_even (exact_risk_sum s t f u)))"
proof -
  from assms have "\<bar>s\<bar> < 2 ^ 53" "\<bar>t\<bar> < 2 ^ 53" "\<bar>f * 14\<bar> < 2 ^ 53" "\<bar>u * 5\<bar> < 2 ^ 53"
    by simp_all
  from risk_sum_total [OF this] obtain x where x: "risk_sum s t f u = Inr x" by blast
  from risk_sum_rounds_exactly(1) [OF x assms(1,3,5,7,9)] x
  show ?thesis by (simp add: risk_score_def clamp_def)
qed

subsection \<open>The result on typed inputs, and the values of the examples\<close>

lemma compute_final_typed:
  assumes "typed_input fc sp tm rs"
  shows "\<exists>r. compute_final fc sp tm = Inr r \<and>
           splice_risk_score r = spliceScore sp \<and>
           timeline_mismatch_risk_score r = timelineScore tm \<and>
           false_or_mixed_claims r = countFalseOrMixed rs \<and>
           unclear_claims r = countUnclear rs \<and>
           risk_score (spliceScore sp) (timelineScore tm) (countFalseOrMixed rs) (countUnclear rs)
             = Inr (misinformation_risk_score r) \<and>
           verdict r = select_verdict (countFalseOrMixed rs) (timelineScore tm)
             (misinformation_risk_score r) \<and>
           confidence_percent r = confidence_of (misinformation_risk_score r)"
proof -
  from assms have it: "py_iter (get_default fc ''results'' (PList [])) = Inr rs"
    and ok: "list_all result_ok rs" and len: "length rs < 2 ^ 48"
    and s_ok: "score_ok sp ''splice_risk_score''"
    and t_ok: "score_ok tm ''timeline_mismatch_risk_score''"
    and s_b: "\<bar>spliceScore sp\<bar> < 2 ^ 53" and t_b: "\<bar>timelineScore tm\<bar> < 2 ^ 53"
    by (simp_all add: typed_input_def spliceScore_def timelineScore_def)
  have fm: "count_verdicts [''false'', ''mixed''] rs = Inr (countFalseOrMixed rs)"
    unfolding countFalseOrMixed_def using ok by (rule count_verdicts_total)
  have un: "count_verdicts [''unclear''] rs = Inr (countUnclear rs)"
    unfolding countUnclear_def using ok by (rule count_verdicts_total)
  from sum_confidence_total [OF ok, of 0] obtain tot where
    tot: "sum_confidence 0 rs = Inr tot" and tb: "0 \<le> tot" "tot \<le> 100 * int (length rs)"
    by auto
  have "\<bar>tot\<bar> \<le> 100 * max 1 (int (length rs))" using tb by simp
  from true_div_total [OF this] obtain avg where
    avg: "true_div tot (max 1 (int (length rs))) = Inr avg" by auto
  have s: "int_or_0 sp ''splice_risk_score'' = Inr (spliceScore sp)"
    unfolding spliceScore_def using s_ok by (rule int_or_0_score)
  have t: "int_or_0 tm ''timeline_mismatch_risk_score'' = Inr (timelineScore tm)"
    unfolding timelineScore_def using t_ok by (rule int_or_0_score)
  have lb: "int (length rs) < 2 ^ 48" using len by (simp add: of_nat_less_numeral_power_cancel_iff)
  have c1: "0 \<le> countFalseOrMixed rs \<and> countFalseOrMixed rs \<le> int (length rs)"
    unfolding countFalseOrMixed_def by (rule count_with_verdict_bounds)
  have c2: "0 \<le> countUnclear rs \<and> countUnclear rs \<le> int (length rs)"
    unfolding countUnclear_def by (rule count_with_verdict_bounds)
  have p: "(2::int) ^ 53 = 32 * 2 ^ 48" by simp
  have f_b: "\<bar>countFalseOrMixed rs * 14\<bar> < 2 ^ 53" using c1 lb unfolding p by linarith
  have u_b: "\<bar>countUnclear rs * 5\<bar> < 2 ^ 53" using c2 lb unfolding p by linarith
  from risk_sum_total [OF s_b t_b f_b u_b] obtain x where
    "risk_sum (spliceScore sp) (timelineScore tm) (countFalseOrMixed rs) (countUnclear rs) = Inr x"
    by blast
  then obtain risk where risk:
    "risk_score (spliceScore sp) (timelineScore tm) (countFalseOrMixed rs) (countUnclear rs) = Inr risk"
    by (simp add: risk_score_def)
  show ?thesis
    by (simp add: compute_final_eval [OF it fm un tot avg s t risk] risk)
qed

lemma compute_final_range:
  assumes "compute_final fc sp tm = Inr r"
  shows "0 \<le> misinformation_risk_score r \<and> misinformation_risk_score r \<le> 100"
proof -
  from compute_final_fields [OF assms] obtain x where
    "misinformation_risk_score r = clamp 0 100 (round_half_even x)"
    by (blast dest: risk_score_Inr)
  then show ?thesis by (simp add: clamp_range)
qed

lemma risk_score_28: "risk_score 0 0 2 0 = Inr 28"
proof -
  have "risk_score 0 0 2 0 = Inr (clamp 0 100 (round_half_even (exact_risk_sum 0 0 2 0)))"
    by (rule risk_score_value) simp_all
  moreover have "exact_risk_sum 0 0 2 0 = of_int 28" by (simp add: exact_risk_sum_def)
  ultimately show ?thesis by (simp only: rhe_of_int) (simp add: clamp_def)
qed

lemma risk_score_23: "risk_score 0 65 0 0 = Inr 23"
proof -
  have "risk_score 0 65 0 0 = Inr (clamp 0 100 (round_half_even (exact_risk_sum 0 65 0 0)))"
    by (rule risk_score_value) simp_all
  moreover have "exact_risk_sum 0 65 0 0 = 91 / 4" by (simp add: exact_risk_sum_def)
  moreover have "round_half_even (91 / 4) = 23" by code_simp
  ultimately show ?thesis by (simp add: clamp_def)
qed

lemma risk_score_0: "risk_score 0 0 0 0 = Inr 0"
proof -
  have "risk_score 0 0 0 0 = Inr (clamp 0 100 (round_half_even (exact_risk_sum 0 0 0 0)))"
    by (rule risk_score_value) simp_all
  moreover have "exact_risk_sum 0 0 0 0 = of_int 0" by (simp add: exact_risk_sum_def)
  ultimately show ?thesis by (simp only: rhe_of_int) (simp add: clamp_def)
qed

lemma fmul_90: "fmul 90 lit_0_35 = 8866461766385663 / 281474976710656"
  by code_simp

lemma fl_90: "fl (8866461766385663 / 281474976710656) = 8866461766385663 / 281474976710656"
  by code_simp

lemma rhe_90: "round_half_even (8866461766385663 / 281474976710656) = 31"
  by code_simp

lemma risk_score_31: "risk_score 0 90 0 0 = Inr 31"
proof -
  let ?V = "8866461766385663 / 281474976710656 :: rat"
  have no: "\<not> overflows ?V" by (rule not_overflows_bounded) simp
  have no0: "\<not> overflows 0" by (simp add: overflows_def)
  have i0: "float_of_int 0 = Inr 0" using float_of_int_small [of 0] by simp
  have i90: "float_of_int 90 = Inr 90" using float_of_int_small [of 90] by simp
  have a1: "fadd 0 (fmul 0 lit_0_25) = Inr 0" by (simp add: fadd_def fmul_def no0)
  have a2: "fadd 0 (fmul 90 lit_0_35) = Inr ?V" by (simp add: fadd_def fmul_90 fl_90 no)
  have a3: "fadd ?V 0 = Inr ?V" by (simp add: fadd_def fl_90 no)
  have "risk_sum 0 90 0 0 = Inr ?V"
    by (simp add: risk_sum_def i0 i90 a1 a2 a3)
  then show ?thesis by (simp add: risk_score_def rhe_90)
qed

lemma exact_90:
  "round_half_even (exact_risk_sum 0 90 0 0) = 32 \<and> round_half_up (exact_risk_sum 0 90 0 0) = 32"
  by code_simp

lemma select_verdict_rule: "select_verdict f t risk = verdict_rule f t risk"
  by (simp add: select_verdict_def verdict_rule_def)

lemma compute_final_counts:
  assumes "compute_final fc sp tm = Inr r"
  shows "\<exists>rs. py_iter (get_default fc ''results'' (PList [])) = Inr rs \<and>
          false_or_mixed_claims r = countFalseOrMixed rs \<and>
          unclear_claims r = countUnclear rs"
  using compute_final_fields [OF assms] unfolding countFalseOrMixed_def countUnclear_def by blast

lemma confidence_of_0: "confidence_of 0 = 90"
proof -
  have "confidence_of 0 = clamp 50 95 (round_half_even (90 - 3 * of_int 0 / 5))"
    by (rule confidence_of_exact) simp_all
  also have "\<dots> = 90" by code_simp
  finally show ?thesis .
qed

lemma exact_39:
  "clamp 0 100 (round_half_even (exact_risk_sum 10 65 1 0)) = 39"
  "clamp 0 100 (round_half_up (exact_risk_sum 10 65 1 0)) = 39"
  by code_simp+


section \<open>The risk sum for scores of either sign\<close>

text \<open>
  For scores of magnitude below \<open>2 ^ 32\<close> and fewer than \<open>2 ^ 32\<close> results every intermediate
  value stays below \<open>2 ^ 38\<close>, so each of the roundings moves the sum by at most
  \<open>2 ^ 38 / 2 ^ 53\<close>: the double-precision sum is within \<open>1 / 20\<close> of the exact value.
\<close>

lemma fl_abs_step:
  assumes "\<bar>y - Y\<bar> \<le> d" and "\<bar>Y\<bar> \<le> 137438953472" and "d \<le> 1"
  shows "\<bar>fl y - Y\<bar> \<le> d + 1 / 32768"
proof -
  have y: "\<bar>y\<bar> \<le> 274877906944" using assms by linarith
  have "\<bar>fl y - y\<bar> \<le> \<bar>y\<bar> / 2 ^ 53" by (rule fl_error)
  also have "\<dots> \<le> 274877906944 / 2 ^ 53" using y by (intro divide_right_mono) simp_all
  also have "\<dots> = 1 / 32768" by simp
  finally have "\<bar>fl y - y\<bar> \<le> 1 / 32768" .
  with assms(1) show ?thesis by linarith
qed

lemma of_int_abs_bound:
  assumes "\<bar>i\<bar> < (2::int) ^ 32"
  shows "\<bar>of_int i :: rat\<bar> \<le> 4294967296"
proof -
  from assms have "\<bar>i\<bar> \<le> 4294967296" by simp
  then have "(of_int \<bar>i\<bar> :: rat) \<le> of_int 4294967296" by (simp only: of_int_le_iff)
  then show ?thesis by simp
qed

lemma scaled_abs:
  assumes i: "\<bar>i\<bar> < (2::int) ^ 32" and c: "\<bar>c - c0\<bar> \<le> 1 / 2 ^ 54" and c0: "\<bar>c0\<bar> \<le> 1 / 2"
  shows "\<bar>fmul (of_int i) c - of_int i * c0\<bar> \<le> 1 / 4194304 + 1 / 32768"
proof -
  have b: "\<bar>of_int i :: rat\<bar> \<le> 4294967296" using i by (rule of_int_abs_bound)
  have "\<bar>of_int i * c - of_int i * c0\<bar> = \<bar>of_int i :: rat\<bar> * \<bar>c - c0\<bar>"
    by (simp add: abs_mult right_diff_distrib [symmetric])
  also have "\<dots> \<le> 4294967296 * (1 / 2 ^ 54)" using b c by (intro mult_mono) simp_all
  also have "\<dots> = 1 / 4194304" by simp
  finally have d: "\<bar>of_int i * c - of_int i * c0\<bar> \<le> 1 / 4194304" .
  have "\<bar>of_int i * c0\<bar> = \<bar>of_int i :: rat\<bar> * \<bar>c0\<bar>" by (rule abs_mult)
  also have "\<dots> \<le> 4294967296 * (1 / 2)" using b c0 by (intro mult_mono) simp_all
  finally have m: "\<bar>of_int i * c0\<bar> \<le> 137438953472" by simp
  have "\<bar>fl (of_int i * c) - of_int i * c0\<bar> \<le> 1 / 4194304 + 1 / 32768"
    using d m by (rule fl_abs_step) simp
  then show ?thesis by (simp add: fmul_def)
qed

lemma lit_0_25_abs: "\<bar>lit_0_25 - 1 / 4\<bar> \<le> 1 / 2 ^ 54"
proof -
  have "\<bar>fl (1 / 4) - 1 / 4\<bar> \<le> \<bar>1 / 4\<bar> / 2 ^ 53" by (rule fl_error)
  then show ?thesis by (simp add: lit_0_25_def)
qed

lemma lit_0_35_abs: "\<bar>lit_0_35 - 7 / 20\<bar> \<le> 1 / 2 ^ 54"
proof -
  have "\<bar>fl (7 / 20) - 7 / 20\<bar> \<le> \<bar>7 / 20\<bar> / 2 ^ 53" by (rule fl_error)
  then show ?thesis by (simp add: lit_0_35_def)
qed

lemma risk_sum_abs_close:
  assumes r: "risk_sum s t f u = Inr x"
    and s: "\<bar>s\<bar> < 2 ^ 32" and t: "\<bar>t\<bar> < 2 ^ 32"
    and f: "0 \<le> f" "f < 2 ^ 32" and u: "0 \<le> u" "u < 2 ^ 32"
  shows "\<bar>x - exact_risk_sum s t f u\<bar> < 1 / 20"
proof -
  from r obtain ys r1 yt r2 yf r3 yu where
    ys: "float_of_int s = Inr ys" and r1: "fadd 0 (fmul ys lit_0_25) = Inr r1" and
    yt: "float_of_int t = Inr yt" and r2: "fadd r1 (fmul yt lit_0_35) = Inr r2" and
    yf: "float_of_int (f * 14) = Inr yf" and r3: "fadd r2 yf = Inr r3" and
    yu: "float_of_int (u * 5) = Inr yu" and x: "fadd r3 yu = Inr x"
    by (auto simp: risk_sum_def ebind_eq_Inr)
  have s53: "\<bar>s\<bar> < 2 ^ 53" using s by simp
  have t53: "\<bar>t\<bar> < 2 ^ 53" using t by simp
  have f53: "\<bar>f * 14\<bar> < 2 ^ 53" using f by simp
  have u53: "\<bar>u * 5\<bar> < 2 ^ 53" using u by simp
  have ys': "ys = of_int s" using ys float_of_int_small [OF s53] by simp
  have yt': "yt = of_int t" using yt float_of_int_small [OF t53] by simp
  have yf': "yf = of_int (f * 14)" using yf float_of_int_small [OF f53] by simp
  have yu': "yu = of_int (u * 5)" using yu float_of_int_small [OF u53] by simp
  let ?a = "of_int s * (1 / 4) :: rat" and ?b = "of_int t * (7 / 20) :: rat"
  let ?c = "of_int (f * 14) :: rat" and ?d = "of_int (u * 5) :: rat"
  have bs: "\<bar>of_int s :: rat\<bar> \<le> 4294967296" using s by (rule of_int_abs_bound)
  have bt: "\<bar>of_int t :: rat\<bar> \<le> 4294967296" using t by (rule of_int_abs_bound)
  have "\<bar>f\<bar> < 2 ^ 32" using f by simp
  then have bf: "\<bar>of_int f :: rat\<bar> \<le> 4294967296" by (rule of_int_abs_bound)
  have "\<bar>u\<bar> < 2 ^ 32" using u by simp
  then have bu: "\<bar>of_int u :: rat\<bar> \<le> 4294967296" by (rule of_int_abs_bound)
  have ma: "\<bar>?a\<bar> \<le> 1073741824" using bs by simp
  have mb: "\<bar>?b\<bar> \<le> 1503238554" using bt by simp
  have mc: "\<bar>?c\<bar> \<le> 60129542144" using bf by simp
  have md: "\<bar>?d\<bar> \<le> 21474836480" using bu by simp
  have p1: "\<bar>fmul ys lit_0_25 - ?a\<bar> \<le> 1 / 4194304 + 1 / 32768"
    unfolding ys' using s lit_0_25_abs by (rule scaled_abs) simp
  have p2: "\<bar>fmul yt lit_0_35 - ?b\<bar> \<le> 1 / 4194304 + 1 / 32768"
    unfolding yt' using t lit_0_35_abs by (rule scaled_abs) simp
  have e1: "r1 = fl (0 + fmul ys lit_0_25)" using r1 by (rule fadd_Inr)
  have e2: "r2 = fl (r1 + fmul yt lit_0_35)" using r2 by (rule fadd_Inr)
  have e3: "r3 = fl (r2 + yf)" using r3 by (rule fadd_Inr)
  have e4: "x = fl (r3 + yu)" using x by (rule fadd_Inr)
  have "\<bar>(0 + fmul ys lit_0_25) - ?a\<bar> \<le> 1 / 4194304 + 1 / 32768" using p1 by simp
  moreover have "\<bar>?a\<bar> \<le> 137438953472" using ma by linarith
  ultimately have "\<bar>fl (0 + fmul ys lit_0_25) - ?a\<bar> \<le> (1 / 4194304 + 1 / 32768) + 1 / 32768"
    by (rule fl_abs_step) simp
  then have q1: "\<bar>r1 - ?a\<bar> \<le> 1 / 4194304 + 2 / 32768" unfolding e1 by simp
  have "\<bar>(r1 + fmul yt lit_0_35) - (?a + ?b)\<bar> \<le> 2 / 4194304 + 3 / 32768"
    using q1 p2 by linarith
  moreover have "\<bar>?a + ?b\<bar> \<le> 137438953472" using ma mb by linarith
  ultimately have "\<bar>fl (r1 + fmul yt lit_0_35) - (?a + ?b)\<bar> \<le> (2 / 4194304 + 3 / 32768) + 1 / 32768"
    by (rule fl_abs_step) simp
  then have q2: "\<bar>r2 - (?a + ?b)\<bar> \<le> 2 / 4194304 + 4 / 32768" unfolding e2 by simp
  have "\<bar>(r2 + yf) - (?a + ?b + ?c)\<bar> \<le> 2 / 4194304 + 4 / 32768"
    using q2 unfolding yf' by linarith
  moreover have "\<bar>?a + ?b + ?c\<bar> \<le> 137438953472" using ma mb mc by linarith
  ultimately have "\<bar>fl (r2 + yf) - (?a + ?b + ?c)\<bar> \<le> (2 / 4194304 + 4 / 32768) + 1 / 32768"
    by (rule fl_abs_step) simp
  then have q3: "\<bar>r3 - (?a + ?b + ?c)\<bar> \<le> 2 / 4194304 + 5 / 32768" unfolding e3 by simp
  have "\<bar>(r3 + yu) - (?a + ?b + ?c + ?d)\<bar> \<le> 2 / 4194304 + 5 / 32768"
    using q3 unfolding yu' by linarith
  moreover have "\<bar>?a + ?b + ?c + ?d\<bar> \<le> 137438953472" using ma mb mc md by linarith
  ultimately have "\<bar>fl (r3 + yu) - (?a + ?b + ?c + ?d)\<bar> \<le> (2 / 4194304 + 5 / 32768) + 1 / 32768"
    by (rule fl_abs_step) simp
  then have q4: "\<bar>x - (?a + ?b + ?c + ?d)\<bar> \<le> 2 / 4194304 + 6 / 32768" unfolding e4 by simp
  have "?a + ?b + ?c + ?d = exact_risk_sum s t f u" by (simp add: exact_risk_sum_def)
  with q4 show ?thesis by linarith
qed

lemma risk_score_exact:
  assumes s: "\<bar>s\<bar> < 2 ^ 32" and t: "\<bar>t\<bar> < 2 ^ 32"
    and f: "0 \<le> f" "f < 2 ^ 32" and u: "0 \<le> u" "u < 2 ^ 32"
    and r: "risk_score s t f u = Inr risk"
    and tie: "(5 * s + 7 * t) mod 20 \<noteq> 10"
  shows "risk = clamp 0 100 (round_half_even (exact_risk_sum s t f u))"
    and "risk = clamp 0 100 (round_half_up (exact_risk_sum s t f u))"
proof -
  let ?e = "exact_risk_sum s t f u"
  let ?K = "5 * s + 7 * t + 280 * f + 100 * u"
  from risk_score_Inr [OF r] obtain x where
    x: "risk_sum s t f u = Inr x" and c: "risk = clamp 0 100 (round_half_even x)" by blast
  have d: "\<bar>x - ?e\<bar> < 1 / 20" using x s t f u by (rule risk_sum_abs_close)
  have "?K = (5 * s + 7 * t) + 20 * (14 * f + 5 * u)" by simp
  then have "?K mod 20 = (5 * s + 7 * t) mod 20" by (simp only: mod_mult_self2)
  with tie have K: "?K mod 20 \<noteq> 10" by simp
  have n: "\<bar>of_int ((?K + 10) div 20) - ?e\<bar> \<le> 9 / 20"
    using nearest_20 [OF K] by (simp only: exact_risk_sum_20)
  note a = rounds_agree [OF n d]
  show "risk = clamp 0 100 (round_half_even ?e)" unfolding c by (simp only: a)
  show "risk = clamp 0 100 (round_half_up ?e)" unfolding c by (simp only: a)
qed

section \<open>Risk score, verdict and confidence\<close>

text \<open>
  C1. The \<open>misinformation_risk_score\<close> of every returned result lies between 0 and 100, and
  it is the clamp to that range of Python's \<^verbatim>\<open>round\<close> (ties to even) of the sum computed in
  double precision. When \<open>results\<close> is a list of fewer than \<open>2 ^ 32\<close> dictionaries whose
  confidence is absent or an integer from 0 to 100, and the two scores are integers of
  magnitude below \<open>2 ^ 32\<close>, null or missing, \<^verbatim>\<open>compute_final\<close> returns; and whenever the exact
  value
  \<open>0.25 \<cdot> spliceScore + 0.35 \<cdot> timelineScore + 14 \<cdot> countFalseOrMixed + 5 \<cdot> countUnclear\<close>
  is not halfway between two integers, that is \<open>(5 \<cdot> spliceScore + 7 \<cdot> timelineScore) mod 20 \<noteq> 10\<close>,
  the returned score equals the clamp of the rounded exact value, under either rounding
  convention.
\<close>

theorem compute_final_risk_score:
  "(\<forall>r. compute_final fc sp tm = Inr r \<longrightarrow>
      0 \<le> misinformation_risk_score r \<and> misinformation_risk_score r \<le> 100 \<and>
      (\<exists>rs x. py_iter (get_default fc ''results'' (PList [])) = Inr rs \<and>
         risk_sum (splice_risk_score r) (timeline_mismatch_risk_score r)
           (countFalseOrMixed rs) (countUnclear rs) = Inr x \<and>
         misinformation_risk_score r = clamp 0 100 (round_half_even x)))
   \<and> (py_iter (get_default fc ''results'' (PList [])) = Inr rs \<and> list_all result_ok rs \<and>
       length rs < 2 ^ 32 \<and>
       score_ok sp ''splice_risk_score'' \<and> score_ok tm ''timeline_mismatch_risk_score'' \<and>
       \<bar>spliceScore sp\<bar> < 2 ^ 32 \<and> \<bar>timelineScore tm\<bar> < 2 ^ 32 \<longrightarrow>
       (\<exists>r. compute_final fc sp tm = Inr r \<and>
          ((5 * spliceScore sp + 7 * timelineScore tm) mod 20 \<noteq> 10 \<longrightarrow>
           misinformation_risk_score r =
             clamp 0 100 (round_half_even (exact_risk_sum (spliceScore sp) (timelineScore tm)
               (countFalseOrMixed rs) (countUnclear rs))) \<and>
           misinformation_risk_score r =
             clamp 0 100 (round_half_up (exact_risk_sum (spliceScore sp) (timelineScore tm)
               (countFalseOrMixed rs) (countUnclear rs))))))"
proof (rule conjI; intro allI impI)
  fix r
  assume a: "compute_final fc sp tm = Inr r"
  from compute_final_fields [OF a] obtain rs where
    it: "py_iter (get_default fc ''results'' (PList [])) = Inr rs"
    and fm: "false_or_mixed_claims r = countFalseOrMixed rs"
    and un: "unclear_claims r = countUnclear rs"
    and rs: "risk_score (splice_risk_score r) (timeline_mismatch_risk_score r)
            (false_or_mixed_claims r) (unclear_claims r) = Inr (misinformation_risk_score r)"
    unfolding countFalseOrMixed_def countUnclear_def by blast
  from risk_score_Inr [OF rs] obtain x where
    x: "risk_sum (splice_risk_score r) (timeline_mismatch_risk_score r)
           (countFalseOrMixed rs) (countUnclear rs) = Inr x"
    and c: "misinformation_risk_score r = clamp 0 100 (round_half_even x)"
    unfolding fm un by blast
  from compute_final_range [OF a] it x c
  show "0 \<le> misinformation_risk_score r \<and> misinformation_risk_score r \<le> 100 \<and>
      (\<exists>rs x. py_iter (get_default fc ''results'' (PList [])) = Inr rs \<and>
         risk_sum (splice_risk_score r) (timeline_mismatch_risk_score r)
           (countFalseOrMixed rs) (countUnclear rs) = Inr x \<and>
         misinformation_risk_score r = clamp 0 100 (round_half_even x))"
    by blast
next
  assume a: "py_iter (get_default fc ''results'' (PList [])) = Inr rs \<and> list_all result_ok rs \<and>
       length rs < 2 ^ 32 \<and>
       score_ok sp ''splice_risk_score'' \<and> score_ok tm ''timeline_mismatch_risk_score'' \<and>
       \<bar>spliceScore sp\<bar> < 2 ^ 32 \<and> \<bar>timelineScore tm\<bar> < 2 ^ 32"
  then have it: "py_iter (get_default fc ''results'' (PList [])) = Inr rs"
    and ok: "list_all result_ok rs" and len: "length rs < 2 ^ 32"
    and s_ok: "score_ok sp ''splice_risk_score''"
    and t_ok: "score_ok tm ''timeline_mismatch_risk_score''"
    and s: "\<bar>spliceScore sp\<bar> < 2 ^ 32" and t: "\<bar>timelineScore tm\<bar> < 2 ^ 32"
    by blast+
  have len48: "length rs < 2 ^ 48" using len by simp
  have s53: "\<bar>score_of sp ''splice_risk_score''\<bar> < 2 ^ 53"
    using s by (simp add: spliceScore_def)
  have t53: "\<bar>score_of tm ''timeline_mismatch_risk_score''\<bar> < 2 ^ 53"
    using t by (simp add: timelineScore_def)
  have ti: "typed_input fc sp tm rs"
    unfolding typed_input_def using it ok len48 s_ok t_ok s53 t53 by blast
  from compute_final_typed [OF ti] obtain r where
    r: "compute_final fc sp tm = Inr r"
    and rs: "risk_score (spliceScore sp) (timelineScore tm) (countFalseOrMixed rs) (countUnclear rs)
             = Inr (misinformation_risk_score r)"
    by blast
  have lb: "int (length rs) < 2 ^ 32" using len by (simp add: of_nat_less_numeral_power_cancel_iff)
  have c1: "0 \<le> countFalseOrMixed rs \<and> countFalseOrMixed rs \<le> int (length rs)"
    unfolding countFalseOrMixed_def by (rule count_with_verdict_bounds)
  have c2: "0 \<le> countUnclear rs \<and> countUnclear rs \<le> int (length rs)"
    unfolding countUnclear_def by (rule count_with_verdict_bounds)
  have f0: "0 \<le> countFalseOrMixed rs" and f1: "countFalseOrMixed rs < 2 ^ 32"
    using c1 lb by linarith+
  have u0: "0 \<le> countUnclear rs" and u1: "countUnclear rs < 2 ^ 32"
    using c2 lb by linarith+
  note e = risk_score_exact [OF s t f0 f1 u0 u1 rs]
  from r e
  show "\<exists>r. compute_final fc sp tm = Inr r \<and>
          ((5 * spliceScore sp + 7 * timelineScore tm) mod 20 \<noteq> 10 \<longrightarrow>
           misinformation_risk_score r =
             clamp 0 100 (round_half_even (exact_risk_sum (spliceScore sp) (timelineScore tm)
               (countFalseOrMixed rs) (countUnclear rs))) \<and>
           misinformation_risk_score r =
             clamp 0 100 (round_half_up (exact_risk_sum (spliceScore sp) (timelineScore tm)
               (countFalseOrMixed rs) (countUnclear rs))))"
    by blast
qed

text \<open>
  One false claim, splice score 10 and timeline score 65: the exact value is 39.25 and the
  returned score is 39.
\<close>

theorem compute_final_risk_score_witness:
  "\<exists>r. compute_final
          [(''results'', PList [PDict [(''verdict'', PStr ''false''), (''confidence'', PInt 80)]])]
          [(''splice_risk_score'', PInt 10)]
          [(''timeline_mismatch_risk_score'', PInt 65)] = Inr r
        \<and> misinformation_risk_score r = 39
        \<and> 0 \<le> misinformation_risk_score r \<and> misinformation_risk_score r \<le> 100"
  using compute_final_risk_score
    [of "[(''results'', PList [PDict [(''verdict'', PStr ''false''), (''confidence'', PInt 80)]])]"
        "[(''splice_risk_score'', PInt 10)]"
        "[(''timeline_mismatch_risk_score'', PInt 65)]"
        "[PDict [(''verdict'', PStr ''false''), (''confidence'', PInt 80)]]"]
  by (auto simp: result_ok_def score_ok_def score_of_def spliceScore_def
      timelineScore_def countFalseOrMixed_def countUnclear_def count_with_verdict_def
      has_verdict_def get_default_def get_def exact_39)

text \<open>
  C1, where the exact formula fails: with no results, splice score 0 and timeline score 90
  the exact value is 31.5, which rounds to 32 under both conventions; the double nearest
  to 0.35 is below 0.35, the product \<^verbatim>\<open>90 * 0.35\<close> is the double just below 31.5, and
  \<^verbatim>\<open>compute_final\<close> returns 31.
\<close>

theorem compute_final_risk_not_exact:
  "map_sum id misinformation_risk_score
     (compute_final [(''results'', PList [])] [(''splice_risk_score'', PInt 0)]
        [(''timeline_mismatch_risk_score'', PInt 90)]) = Inr 31
   \<and> clamp 0 100 (round_half_even (exact_risk_sum 0 90 0 0)) = 32
   \<and> clamp 0 100 (round_half_up (exact_risk_sum 0 90 0 0)) = 32"
proof -
  let ?fc = "[(''results'', PList [])]"
  let ?sp = "[(''splice_risk_score'', PInt 0)]"
  let ?tm = "[(''timeline_mismatch_risk_score'', PInt 90)]"
  have ti: "typed_input ?fc ?sp ?tm []"
    by (simp add: typed_input_def score_ok_def score_of_def get_default_def get_def)
  have v: "spliceScore ?sp = 0" "timelineScore ?tm = 90" "countFalseOrMixed [] = 0"
    "countUnclear [] = 0"
    by (simp_all add: spliceScore_def timelineScore_def score_of_def get_def
        countFalseOrMixed_def countUnclear_def count_with_verdict_def)
  from compute_final_typed [OF ti] obtain r where
    r: "compute_final ?fc ?sp ?tm = Inr r"
    and rs: "risk_score (spliceScore ?sp) (timelineScore ?tm) (countFalseOrMixed [])
               (countUnclear []) = Inr (misinformation_risk_score r)"
    by blast
  from rs have "misinformation_risk_score r = 31" unfolding v by (simp add: risk_score_31)
  with r exact_90 show ?thesis by (simp add: clamp_def)
qed

text \<open>
  C2. The verdict of every returned result follows the rule of the specification, evaluated
  on the number of false or mixed results, the timeline score and the returned risk; on
  typed inputs \<^verbatim>\<open>compute_final\<close> returns and the timeline score is the integer field (0 when
  missing or null). With two false or mixed results, no unclear one and both scores 0 the
  risk is 28 and the verdict is \<^verbatim>\<open>FAKE\<close>; with no false, mixed or unclear result, splice
  score 0 and timeline score 65 the verdict is \<^verbatim>\<open>MISLEADING\<close>.
\<close>

theorem compute_final_verdict:
  "(\<forall>r. compute_final fc sp tm = Inr r \<longrightarrow>
      (\<exists>rs. py_iter (get_default fc ''results'' (PList [])) = Inr rs \<and>
         verdict r = verdict_rule (countFalseOrMixed rs) (timeline_mismatch_risk_score r)
                       (misinformation_risk_score r)))
   \<and> (typed_input fc sp tm rs \<longrightarrow>
       (\<exists>r. compute_final fc sp tm = Inr r \<and>
          verdict r = verdict_rule (countFalseOrMixed rs) (timelineScore tm)
                        (misinformation_risk_score r)))
   \<and> (typed_input fc sp tm rs \<and> countFalseOrMixed rs = 2 \<and> spliceScore sp = 0 \<and>
       timelineScore tm = 0 \<and> countUnclear rs = 0 \<longrightarrow>
       (\<exists>r. compute_final fc sp tm = Inr r \<and> misinformation_risk_score r = 28 \<and>
          verdict r = ''FAKE''))
   \<and> (typed_input fc sp tm rs \<and> countFalseOrMixed rs = 0 \<and> countUnclear rs = 0 \<and>
       spliceScore sp = 0 \<and> timelineScore tm = 65 \<longrightarrow>
       (\<exists>r. compute_final fc sp tm = Inr r \<and> verdict r = ''MISLEADING''))"
proof (intro conjI allI impI)
  fix r
  assume a: "compute_final fc sp tm = Inr r"
  from compute_final_fields [OF a] obtain rs where
    "py_iter (get_default fc ''results'' (PList [])) = Inr rs"
    "false_or_mixed_claims r = countFalseOrMixed rs"
    "verdict r = select_verdict (false_or_mixed_claims r) (timeline_mismatch_risk_score r)
            (misinformation_risk_score r)"
    unfolding countFalseOrMixed_def by blast
  then show "\<exists>rs. py_iter (get_default fc ''results'' (PList [])) = Inr rs \<and>
         verdict r = verdict_rule (countFalseOrMixed rs) (timeline_mismatch_risk_score r)
                       (misinformation_risk_score r)"
    by (auto simp: select_verdict_rule)
next
  assume "typed_input fc sp tm rs"
  from compute_final_typed [OF this]
  show "\<exists>r. compute_final fc sp tm = Inr r \<and>
          verdict r = verdict_rule (countFalseOrMixed rs) (timelineScore tm)
                        (misinformation_risk_score r)"
    by (auto simp: select_verdict_rule)
next
  assume a: "typed_input fc sp tm rs \<and> countFalseOrMixed rs = 2 \<and> spliceScore sp = 0 \<and>
       timelineScore tm = 0 \<and> countUnclear rs = 0"
  then have "typed_input fc sp tm rs" by blast
  from compute_final_typed [OF this] a
  show "\<exists>r. compute_final fc sp tm = Inr r \<and> misinformation_risk_score r = 28 \<and>
          verdict r = ''FAKE''"
    by (auto simp: risk_score_28 select_verdict_def)
next
  assume a: "typed_input fc sp tm rs \<and> countFalseOrMixed rs = 0 \<and> countUnclear rs = 0 \<and>
       spliceScore sp = 0 \<and> timelineScore tm = 65"
  then have "typed_input fc sp tm rs" by blast
  from compute_final_typed [OF this] a
  show "\<exists>r. compute_final fc sp tm = Inr r \<and> verdict r = ''MISLEADING''"
    by (auto simp: risk_score_23 select_verdict_def)
qed

text \<open>A run with one false and one mixed result and both scores 0.\<close>

theorem compute_final_verdict_witness:
  "\<exists>r. compute_final
          [(''results'', PList [PDict [(''verdict'', PStr ''false''), (''confidence'', PInt 90)],
                                PDict [(''verdict'', PStr ''mixed''), (''confidence'', PInt 70)]])]
          [(''splice_risk_score'', PInt 0)]
          [(''timeline_mismatch_risk_score'', PInt 0)] = Inr r
        \<and> misinformation_risk_score r = 28 \<and> verdict r = ''FAKE''"
  using compute_final_verdict
    [of "[(''results'', PList [PDict [(''verdict'', PStr ''false''), (''confidence'', PInt 90)],
                                PDict [(''verdict'', PStr ''mixed''), (''confidence'', PInt 70)]])]"
        "[(''splice_risk_score'', PInt 0)]"
        "[(''timeline_mismatch_risk_score'', PInt 0)]"
        "[PDict [(''verdict'', PStr ''false''), (''confidence'', PInt 90)],
          PDict [(''verdict'', PStr ''mixed''), (''confidence'', PInt 70)]]"]
  by (simp add: typed_input_def result_ok_def score_ok_def score_of_def spliceScore_def
      timelineScore_def countFalseOrMixed_def countUnclear_def count_with_verdict_def
      has_verdict_def get_default_def get_def)

text \<open>
  C7. The confidence of every returned result is \<open>90 - 0.6 \<cdot> risk\<close>, rounded and clamped to
  50..95 (the value is never halfway between two integers, so both rounding conventions
  agree, and the double-precision computation rounds like the exact one); it lies between
  50 and 95. On typed inputs \<^verbatim>\<open>compute_final\<close> returns; with no false, mixed or unclear
  result and both scores 0 the risk is 0, the verdict is \<^verbatim>\<open>REAL\<close> and the confidence is 90.
\<close>

theorem compute_final_confidence:
  "(\<forall>r. compute_final fc sp tm = Inr r \<longrightarrow>
      confidence_percent r =
        clamp 50 95 (round_half_even (90 - 3 * of_int (misinformation_risk_score r) / 5)) \<and>
      confidence_percent r =
        clamp 50 95 (round_half_up (90 - 3 * of_int (misinformation_risk_score r) / 5)) \<and>
      50 \<le> confidence_percent r \<and> confidence_percent r \<le> 95)
   \<and> (typed_input fc sp tm rs \<longrightarrow> (\<exists>r. compute_final fc sp tm = Inr r))
   \<and> (typed_input fc sp tm rs \<and> countFalseOrMixed rs = 0 \<and> countUnclear rs = 0 \<and>
       timelineScore tm = 0 \<and> spliceScore sp = 0 \<longrightarrow>
       (\<exists>r. compute_final fc sp tm = Inr r \<and> misinformation_risk_score r = 0 \<and>
          verdict r = ''REAL'' \<and> confidence_percent r = 90))"
proof (intro conjI allI impI)
  fix r
  assume a: "compute_final fc sp tm = Inr r"
  from compute_final_fields [OF a]
  have c: "confidence_percent r = confidence_of (misinformation_risk_score r)" by blast
  from compute_final_range [OF a]
  have b: "0 \<le> misinformation_risk_score r" "misinformation_risk_score r \<le> 100" by blast+
  show "confidence_percent r =
        clamp 50 95 (round_half_even (90 - 3 * of_int (misinformation_risk_score r) / 5))"
    unfolding c using b by (rule confidence_of_exact(1))
  show "confidence_percent r =
        clamp 50 95 (round_half_up (90 - 3 * of_int (misinformation_risk_score r) / 5))"
    unfolding c using b by (rule confidence_of_exact(2))
  show "50 \<le> confidence_percent r" unfolding c by (simp add: confidence_of_def)
  show "confidence_percent r \<le> 95" unfolding c by (simp add: confidence_of_def)
next
  assume "typed_input fc sp tm rs"
  from compute_final_typed [OF this] show "\<exists>r. compute_final fc sp tm = Inr r" by blast
next
  assume a: "typed_input fc sp tm rs \<and> countFalseOrMixed rs = 0 \<and> countUnclear rs = 0 \<and>
       timelineScore tm = 0 \<and> spliceScore sp = 0"
  then have "typed_input fc sp tm rs" by blast
  from compute_final_typed [OF this] a
  show "\<exists>r. compute_final fc sp tm = Inr r \<and> misinformation_risk_score r = 0 \<and>
          verdict r = ''REAL'' \<and> confidence_percent r = 90"
    by (auto simp: risk_score_0 select_verdict_def confidence_of_0)
qed

text \<open>A run with an empty result list and no scores.\<close>

theorem compute_final_confidence_witness:
  "\<exists>r. compute_final [(''results'', PList [])] [] [] = Inr r
        \<and> misinformation_risk_score r = 0 \<and> verdict r = ''REAL'' \<and> confidence_percent r = 90"
  using compute_final_confidence [of "[(''results'', PList [])]" "[]" "[]" "[]"]
  by (simp add: typed_input_def score_ok_def score_of_def spliceScore_def
      timelineScore_def countFalseOrMixed_def countUnclear_def count_with_verdict_def
      get_default_def get_def)

end
